theory Spec2Isabelle
  imports Complex_Main "HOL-Library.Word" "HOL-Library.Product_Lexorder"
begin

section \<open>Numeric types of the source\<close>

text \<open>
  \<^verbatim>\<open>uint32_t\<close> and \<^verbatim>\<open>int32_t\<close> are 32-bit words; an \<^verbatim>\<open>int32_t\<close> is read with
  \<open>sint\<close> and compared with the signed order. A \<^verbatim>\<open>double\<close> that holds a coverage
  score is an exact real or, after a division of a positive count by a zero read
  length, IEEE's positive infinity; rounding is not modelled.
\<close>

type_synonym u32 = "32 word"
type_synonym i32 = "32 word"

datatype dbl = Fin real | PInf

text \<open>\<^verbatim>\<open>count / static_cast<double>(readLen)\<close> for a count that is positive when the
  division is reached with a zero divisor.\<close>

definition fdiv :: "u32 \<Rightarrow> u32 \<Rightarrow> dbl" where
  "fdiv c n = (if n = 0 then (if c = 0 then Fin 0 else PInf)
               else Fin (real (unat c) / real (unat n)))"

text \<open>\<^verbatim>\<open>a >= t\<close>, \<^verbatim>\<open>a < t\<close> and \<^verbatim>\<open>a > b\<close> on doubles, the threshold a finite real.\<close>

fun dbl_ge :: "dbl \<Rightarrow> real \<Rightarrow> bool" where
  "dbl_ge (Fin x) t = (t \<le> x)"
| "dbl_ge PInf t = True"

fun dbl_lt :: "dbl \<Rightarrow> real \<Rightarrow> bool" where
  "dbl_lt (Fin x) t = (x < t)"
| "dbl_lt PInf t = False"

fun dbl_gt :: "dbl \<Rightarrow> dbl \<Rightarrow> bool" where
  "dbl_gt (Fin x) (Fin y) = (y < x)"
| "dbl_gt PInf (Fin y) = True"
| "dbl_gt a PInf = False"

text \<open>\<^verbatim>\<open>(a + b) * 0.5\<close>.\<close>

fun dbl_avg :: "dbl \<Rightarrow> dbl \<Rightarrow> dbl" where
  "dbl_avg (Fin x) (Fin y) = Fin ((x + y) * (1 / 2))"
| "dbl_avg a b = PInf"

section \<open>The coverage chainer: \<^verbatim>\<open>TranscriptHitList\<close>\<close>

record KmerVote =
  votePos :: i32
  readPos :: u32
  voteLen :: u32

text \<open>The local struct \<^verbatim>\<open>VoteInfo\<close> of \<^verbatim>\<open>computeBestLoc_\<close>.\<close>

record VoteInfo =
  coverage :: u32
  rightmostBase :: i32

text \<open>The three reference parameters of \<^verbatim>\<open>computeBestLoc_\<close>.\<close>

record MaxCluster =
  maxClusterPos :: i32
  maxClusterCount :: u32
  maxClusterScore :: dbl

text \<open>The field \<^verbatim>\<open>isForward_\<close> is named \<open>isForward\<close>, after its accessor.\<close>

record TranscriptHitList =
  bestHitPos :: i32
  bestHitCount :: u32
  bestHitScore :: dbl
  votes :: "KmerVote list"
  rcVotes :: "KmerVote list"
  isForward :: bool

text \<open>\<^verbatim>\<open>addFragMatch\<close> and \<^verbatim>\<open>addFragMatchRC\<close>: the subtraction is done in 32 bits.\<close>

definition addFragMatch :: "u32 \<Rightarrow> u32 \<Rightarrow> u32 \<Rightarrow> TranscriptHitList \<Rightarrow> TranscriptHitList" where
  "addFragMatch tpos rp vl h =
     h\<lparr>votes := votes h @ [\<lparr>votePos = tpos - rp, readPos = rp, voteLen = vl\<rparr>]\<rparr>"

definition addFragMatchRC ::
  "u32 \<Rightarrow> u32 \<Rightarrow> u32 \<Rightarrow> u32 \<Rightarrow> TranscriptHitList \<Rightarrow> TranscriptHitList" where
  "addFragMatchRC tpos rp vl readLen h =
     h\<lparr>rcVotes := rcVotes h @ [\<lparr>votePos = tpos - (readLen - rp), readPos = rp, voteLen = vl\<rparr>]\<rparr>"

text \<open>A default-constructed \<^verbatim>\<open>VoteInfo\<close>, which \<^verbatim>\<open>hitMap[currClust]\<close> inserts for a
  new key: the map is a total function with this default.\<close>

definition emptyHitMap :: "u32 \<Rightarrow> VoteInfo" where
  "emptyHitMap = (\<lambda>k. \<lparr>coverage = 0, rightmostBase = 0\<rparr>)"

text \<open>
  The loop of \<^verbatim>\<open>computeBestLoc_\<close> over the votes from index \<open>j\<close> on. The state is the
  current cluster, the hit map, the running maximum and the flag
  \<^verbatim>\<open>updatedMaxScore\<close>. \<open>None\<close> is \<^verbatim>\<open>std::exit(1)\<close>, taken when a vote lies left of
  the current cluster. The sum \<^verbatim>\<open>votePos + readPos + voteLen\<close> and the difference to
  \<^verbatim>\<open>rightmostBase\<close> are unsigned 32-bit (they wrap); the gap
  \<^verbatim>\<open>votePos - currClust\<close> is a signed \<^verbatim>\<open>int\<close>, read here as its mathematical value.
\<close>

fun bestLocLoop ::
  "u32 \<Rightarrow> KmerVote list \<Rightarrow> i32 \<Rightarrow> (u32 \<Rightarrow> VoteInfo) \<Rightarrow> MaxCluster \<Rightarrow> bool
     \<Rightarrow> (MaxCluster \<times> bool) option" where
  "bestLocLoop readLen [] currClust hitMap mx upd = Some (mx, upd)"
| "bestLocLoop readLen (v # vs) currClust hitMap mx upd =
     (if sint currClust \<le> sint (votePos v) then
        (let currClust' = (if sint (votePos v) - sint currClust > 10 then votePos v else currClust);
             hmEntry = hitMap currClust';
             endBase = votePos v + readPos v + voteLen v;
             hmEntry' = \<lparr>coverage = coverage hmEntry + min (voteLen v) (endBase - rightmostBase hmEntry),
                        rightmostBase = endBase\<rparr>;
             hitMap' = hitMap(currClust' := hmEntry')
         in if maxClusterCount mx < coverage hmEntry'
            then bestLocLoop readLen vs currClust' hitMap'
                   \<lparr>maxClusterPos = currClust', maxClusterCount = coverage hmEntry',
                    maxClusterScore = fdiv (coverage hmEntry') readLen\<rparr> True
            else bestLocLoop readLen vs currClust' hitMap' mx upd)
      else None)"

text \<open>\<^verbatim>\<open>computeBestLoc_\<close> (a name cannot end in an underscore here).\<close>

definition computeBestLoc ::
  "u32 \<Rightarrow> KmerVote list \<Rightarrow> MaxCluster \<Rightarrow> (MaxCluster \<times> bool) option" where
  "computeBestLoc readLen sVotes mx =
     (case sVotes of
        [] \<Rightarrow> Some (mx, False)
      | v # vs \<Rightarrow> bestLocLoop readLen sVotes (votePos v) emptyHitMap mx False)"

text \<open>
  \<^verbatim>\<open>std::sort\<close> with the comparator of \<^verbatim>\<open>computeBestChain\<close>: by \<^verbatim>\<open>votePos\<close> (signed),
  then by \<^verbatim>\<open>readPos\<close>. The order of votes with equal keys is left open by
  \<^verbatim>\<open>std::sort\<close>; the model keeps their input order.
\<close>

definition voteKey :: "KmerVote \<Rightarrow> int \<times> nat" where
  "voteKey v = (sint (votePos v), unat (readPos v))"

definition sortVotes :: "KmerVote list \<Rightarrow> KmerVote list" where
  "sortVotes vs = sort_key voteKey vs"

definition zeroCluster :: MaxCluster where
  "zeroCluster = \<lparr>maxClusterPos = 0, maxClusterCount = 0, maxClusterScore = Fin 0\<rparr>"

definition computeBestChain :: "u32 \<Rightarrow> TranscriptHitList \<Rightarrow> TranscriptHitList option" where
  "computeBestChain readLen h =
     (let vs = sortVotes (votes h); rvs = sortVotes (rcVotes h) in
      case computeBestLoc readLen vs zeroCluster of
        None \<Rightarrow> None
      | Some (mx1, u1) \<Rightarrow>
          (case computeBestLoc readLen rvs mx1 of
             None \<Rightarrow> None
           | Some (mx2, revIsBest) \<Rightarrow>
               Some (h\<lparr>votes := vs, rcVotes := rvs, isForward := \<not> revIsBest,
                       bestHitPos := maxClusterPos mx2, bestHitCount := maxClusterCount mx2,
                       bestHitScore := maxClusterScore mx2\<rparr>)))"

definition emptyHitList :: TranscriptHitList where
  "emptyHitList = \<lparr>bestHitPos = 0, bestHitCount = 0, bestHitScore = Fin 0,
                   votes = [], rcVotes = [], isForward = True\<rparr>"

text \<open>The best cluster of one strand taken alone: \<^verbatim>\<open>computeBestLoc_\<close> on the sorted
  votes of that strand, started from the zero maximum.\<close>

definition strandBest :: "u32 \<Rightarrow> KmerVote list \<Rightarrow> (MaxCluster \<times> bool) option" where
  "strandBest readLen vs = computeBestLoc readLen (sortVotes vs) zeroCluster"

definition mkVote :: "i32 \<Rightarrow> u32 \<Rightarrow> u32 \<Rightarrow> KmerVote" where
  "mkVote p r l = \<lparr>votePos = p, readPos = r, voteLen = l\<rparr>"

text \<open>Auxiliary functions for the proofs about the chainer: the largest coverage the
  loop attains, and the same for one sorted strand.\<close>

fun peakCov :: "KmerVote list \<Rightarrow> i32 \<Rightarrow> (u32 \<Rightarrow> VoteInfo) \<Rightarrow> u32" where
  "peakCov [] currClust hitMap = 0"
| "peakCov (v # vs) currClust hitMap =
     (let currClust' = (if sint (votePos v) - sint currClust > 10 then votePos v else currClust);
          hmEntry = hitMap currClust';
          endBase = votePos v + readPos v + voteLen v;
          hmEntry' = \<lparr>coverage = coverage hmEntry + min (voteLen v) (endBase - rightmostBase hmEntry),
                     rightmostBase = endBase\<rparr>
      in max (coverage hmEntry') (peakCov vs currClust' (hitMap(currClust' := hmEntry'))))"

definition strandPeak :: "KmerVote list \<Rightarrow> u32" where
  "strandPeak vs = (case sortVotes vs of [] \<Rightarrow> 0 | v # ws \<Rightarrow> peakCov (v # ws) (votePos v) emptyHitMap)"


section \<open>The hit collector: \<^verbatim>\<open>collectHitsForRead\<close>\<close>

text \<open>
  The index is BWA's, an external library: its suffix-array lookup, its position
  primitives and its annotation table are parameters of the model. Positions,
  lengths and identifiers are mathematical integers; where the source computes in
  \<^verbatim>\<open>uint64_t\<close> (\<^verbatim>\<open>bwtint_t\<close>) the reduction modulo \<open>2 ^ 64\<close> is written out, and
  the conversions to \<^verbatim>\<open>uint32_t\<close> at the calls of \<^verbatim>\<open>addFragMatch\<close> are
  \<open>word_of_int\<close>.
\<close>

record bntann1 =
  len :: int
  offset :: int

record bwaidx =
  bwt_sa :: "int \<Rightarrow> int"
  bns_depos :: "int \<Rightarrow> int \<times> bool"
  bns_pos2rid :: "int \<Rightarrow> int"
  anns :: "int \<Rightarrow> bntann1"

text \<open>The fields of \<^verbatim>\<open>mem_opt_t\<close> and \<^verbatim>\<open>SalmonOpts\<close> that the collector reads.\<close>

record mem_opt =
  max_occ :: int
  min_seed_len :: int

text \<open>A seed \<^verbatim>\<open>bwtintv_t\<close>: the interval start \<^verbatim>\<open>x[0]\<close>, its size \<^verbatim>\<open>x[2]\<close>, and
  \<^verbatim>\<open>info\<close>, which packs the query start (high 32 bits) and the query end.\<close>

record bwtintv =
  x0 :: int
  x2 :: int
  info :: "64 word"

definition u64 :: "int \<Rightarrow> int" where
  "u64 n = n mod 2 ^ 64"

text \<open>The conversion of a 64-bit quotient to \<^verbatim>\<open>int\<close>.\<close>

definition to_i32 :: "int \<Rightarrow> int" where
  "to_i32 n = signed_take_bit 31 n"

text \<open>
  \<^verbatim>\<open>step = p->x[2] > max_occ ? p->x[2] / max_occ : 1\<close>, the comparison and the
  division in \<^verbatim>\<open>uint64_t\<close>. \<open>None\<close> is the division by zero, reached with
  \<^verbatim>\<open>max_occ == 0\<close> on a non-empty interval.
\<close>

definition occStep :: "int \<Rightarrow> int \<Rightarrow> int option" where
  "occStep sz mo =
     (if u64 mo < sz then (if u64 mo = 0 then None else Some (to_i32 (sz div u64 mo)))
      else Some 1)"

text \<open>
  The offsets \<open>k\<close> that the loop
  \<^verbatim>\<open>for (k = count = 0; k < p->x[2] && count < max_occ; k += step, ++count)\<close>
  visits; a \<^verbatim>\<open>continue\<close> in the body does not change them.
\<close>

function occLoop :: "int \<Rightarrow> int \<Rightarrow> int \<Rightarrow> int \<Rightarrow> int \<Rightarrow> int list" where
  "occLoop sz mo step k count =
     (if u64 k < sz \<and> count < mo then k # occLoop sz mo step (k + step) (count + 1) else [])"
  by pat_completeness auto
termination
  by (relation "measure (\<lambda>(sz, mo, step, k, count). nat (mo - count))") auto

definition sampledOccs :: "int \<Rightarrow> int \<Rightarrow> int list option" where
  "sampledOccs sz mo = map_option (\<lambda>step. occLoop sz mo step 0 0) (occStep sz mo)"

text \<open>The arguments of the one call of \<^verbatim>\<open>addFragMatch\<close> or \<^verbatim>\<open>addFragMatchRC\<close> that an
  occurrence ends in.\<close>

record seedHit =
  refID :: int
  isRev :: bool
  hitLoc :: int
  queryStart :: int
  slen :: int
  rlen :: u32

text \<open>
  The body of the loop for one occurrence at suffix-array index \<open>sa\<close> of a seed
  with query start \<open>qs\<close> and length \<open>sl\<close>. \<open>None\<close> is a \<^verbatim>\<open>continue\<close>: no vote.
  In the forward branch the lengths are \<^verbatim>\<open>long\<close>, in the reverse branch
  \<^verbatim>\<open>uint64_t\<close>.
\<close>

definition occVote :: "bwaidx \<Rightarrow> mem_opt \<Rightarrow> bool \<Rightarrow> int \<Rightarrow> int \<Rightarrow> u32 \<Rightarrow> int \<Rightarrow> seedHit option" where
  "occVote idx opt splitSpanningSeeds qs sl readLen sa =
     (let refStart = bwt_sa idx sa;
          (startPos0, isRevStart) = bns_depos idx refStart;
          (endPos0, isRevEnd) = bns_depos idx (refStart + sl - 1)
      in if isRevStart \<noteq> isRevEnd then None
         else
           let rev = isRevStart;
               startPos = (if rev then endPos0 else startPos0);
               endPos = (if rev then startPos0 else endPos0);
               refIDStart = bns_pos2rid idx startPos;
               refIDEnd = bns_pos2rid idx endPos
           in if refIDStart < 0 then None
              else
                let tlen = len (anns idx refIDStart);
                    hl = (if rev then endPos else startPos) - offset (anns idx refIDStart)
                in if refIDStart \<noteq> refIDEnd then
                     (if \<not> splitSpanningSeeds then None
                      else if \<not> rev then
                        (let len1 = tlen - hl; len2 = sl - len1
                         in if max len1 len2 < min_seed_len opt then None
                            else if len1 \<ge> len2 then
                              Some \<lparr>refID = refIDStart, isRev = rev, hitLoc = hl,
                                    queryStart = qs, slen = len1, rlen = readLen\<rparr>
                            else
                              Some \<lparr>refID = refIDEnd, isRev = rev, hitLoc = 0,
                                    queryStart = qs + len1, slen = len2, rlen = readLen\<rparr>)
                      else
                        (let len2 = u64 (endPos - offset (anns idx refIDEnd));
                             len1 = u64 (sl - len2)
                         in if max len1 len2 < u64 (min_seed_len opt) then None
                            else if len1 \<ge> len2 then
                              Some \<lparr>refID = refIDStart, isRev = rev, hitLoc = u64 (tlen - len2),
                                    queryStart = qs + len2, slen = len1,
                                    rlen = readLen - word_of_int len2\<rparr>
                            else
                              Some \<lparr>refID = bns_pos2rid idx endPos, isRev = rev, hitLoc = len2,
                                    queryStart = qs, slen = len2,
                                    rlen = word_of_int len2 + word_of_int qs\<rparr>))
                   else Some \<lparr>refID = refIDStart, isRev = rev, hitLoc = hl,
                              queryStart = qs, slen = sl, rlen = readLen\<rparr>)"

text \<open>\<^verbatim>\<open>hits[refID]\<close> inserts an empty hit list for a new key; then the vote is added.\<close>

definition addHit :: "seedHit \<Rightarrow> (int \<rightharpoonup> TranscriptHitList) \<Rightarrow> (int \<rightharpoonup> TranscriptHitList)" where
  "addHit s hits =
     (let h = (case hits (refID s) of None \<Rightarrow> emptyHitList | Some h \<Rightarrow> h);
          tpos = word_of_int (hitLoc s); rp = word_of_int (queryStart s);
          vl = word_of_int (slen s)
      in hits(refID s \<mapsto> (if isRev s then addFragMatchRC tpos rp vl (rlen s) h
                             else addFragMatch tpos rp vl h)))"

definition qstartOf :: "bwtintv \<Rightarrow> int" where
  "qstartOf p = sint (ucast (drop_bit 32 (info p)) :: 32 word)"

definition qendOf :: "bwtintv \<Rightarrow> u32" where
  "qendOf p = ucast (info p)"

definition seedLen :: "bwtintv \<Rightarrow> int" where
  "seedLen p = sint (qendOf p - word_of_int (qstartOf p))"

text \<open>
  The loop over the sampled occurrences of one seed. The variable \<^verbatim>\<open>slen\<close> is
  declared once per seed and overwritten when an occurrence is split
  (\<^verbatim>\<open>slen = len1\<close>, \<^verbatim>\<open>slen = len2\<close>, narrowed to \<^verbatim>\<open>int\<close>), so every later
  occurrence of the same seed is located and voted with the shortened length. An
  occurrence that is not split leaves \<^verbatim>\<open>slen\<close> as it is: its hit carries the
  length it was called with, which is an \<^verbatim>\<open>int\<close> already.
\<close>

fun occVotes ::
  "bwaidx \<Rightarrow> mem_opt \<Rightarrow> bool \<Rightarrow> int \<Rightarrow> u32 \<Rightarrow> int \<Rightarrow> int \<Rightarrow> int list \<Rightarrow> seedHit list" where
  "occVotes idx opt split qs readLen x sl [] = []"
| "occVotes idx opt split qs readLen x sl (k # ks) =
     (case occVote idx opt split qs sl readLen (x + k) of
        None \<Rightarrow> occVotes idx opt split qs readLen x sl ks
      | Some s \<Rightarrow> s # occVotes idx opt split qs readLen x (to_i32 (slen s)) ks)"

text \<open>The votes of one seed, and the loop over the seeds that \<^verbatim>\<open>mem_collect_intv\<close>
  (external seeding) has left in \<^verbatim>\<open>auxHits->mem\<close>.\<close>

definition seedVotes :: "bwaidx \<Rightarrow> mem_opt \<Rightarrow> bool \<Rightarrow> u32 \<Rightarrow> bwtintv \<Rightarrow> seedHit list option" where
  "seedVotes idx opt split readLen p =
     map_option (occVotes idx opt split (qstartOf p) readLen (x0 p) (seedLen p))
       (sampledOccs (x2 p) (max_occ opt))"

fun collectHitsForRead ::
  "bwaidx \<Rightarrow> mem_opt \<Rightarrow> bool \<Rightarrow> u32 \<Rightarrow> bwtintv list \<Rightarrow> (int \<rightharpoonup> TranscriptHitList)
     \<Rightarrow> (int \<rightharpoonup> TranscriptHitList) option" where
  "collectHitsForRead idx opt split readLen [] hits = Some hits"
| "collectHitsForRead idx opt split readLen (p # ps) hits =
     (case seedVotes idx opt split readLen p of
        None \<Rightarrow> None
      | Some vs \<Rightarrow> collectHitsForRead idx opt split readLen ps (foldl (\<lambda>h s. addHit s h) hits vs))"

text \<open>
  A two-transcript index laid out as BWA lays it out: \<open>T0\<close> of length 20 at offset
  0, \<open>T1\<close> of length 30 at offset 20, the packed forward length \<open>l_pac = 50\<close>, the
  reverse strand at positions 50 to 99 with \<open>depos p = 2 * l_pac - 1 - p\<close>, and the
  identity as suffix array.
\<close>

definition idx2 :: bwaidx where
  "idx2 = \<lparr>bwt_sa = (\<lambda>i. i),
           bns_depos = (\<lambda>p. if 50 \<le> p then (99 - p, True) else (p, False)),
           bns_pos2rid = (\<lambda>p. if p < 0 \<or> 50 \<le> p then - 1 else if p < 20 then 0 else 1),
           anns = (\<lambda>r. if r = 0 then \<lparr>len = 20, offset = 0\<rparr> else \<lparr>len = 30, offset = 20\<rparr>)\<rparr>"

text \<open>The number of positions between \<open>lo\<close> and \<open>hi\<close> (both included) that lie in
  reference sequence \<open>r\<close>: the length of the side of a seed in that sequence.\<close>

definition sideLen :: "bwaidx \<Rightarrow> int \<Rightarrow> int \<Rightarrow> int \<Rightarrow> nat" where
  "sideLen idx r lo hi = length (filter (\<lambda>p. bns_pos2rid idx p = r) [lo..hi])"


section \<open>The mini-batch EM worker: \<^verbatim>\<open>processMiniBatch\<close>\<close>

subsection \<open>Log-domain numbers\<close>

text \<open>
  Modelled from the spec: the constants \<^verbatim>\<open>LOG_0\<close>, \<^verbatim>\<open>LOG_1\<close>, \<^verbatim>\<open>LOG_ONEHALF\<close> and the
  function \<^verbatim>\<open>logAdd\<close> of \<^verbatim>\<open>SailfishMath.hpp\<close>, which is not among the sources. A
  log-domain \<^verbatim>\<open>double\<close> is either \<^verbatim>\<open>LOG_0\<close>, the logarithm of probability zero, or
  the logarithm of a positive real; rounding is not modelled. \<^verbatim>\<open>LOG_0\<close> absorbs
  the sums and differences the source forms with it, \<^verbatim>\<open>logAdd\<close> is the logarithm
  of the sum of the two probabilities and so ignores \<^verbatim>\<open>LOG_0\<close>, and the exponential
  of \<^verbatim>\<open>LOG_0\<close> is probability zero.
\<close>

datatype logd = LOG_0 | LogVal real

definition LOG_1 :: logd where
  "LOG_1 = LogVal 0"

definition LOG_ONEHALF :: logd where
  "LOG_ONEHALF = LogVal (ln (1 / 2))"

text \<open>\<^verbatim>\<open>x + y\<close> on two log-domain doubles, and \<^verbatim>\<open>x - r\<close> for a finite \<open>r\<close>.\<close>

fun ladd :: "logd \<Rightarrow> logd \<Rightarrow> logd" where
  "ladd (LogVal a) (LogVal b) = LogVal (a + b)"
| "ladd x y = LOG_0"

fun lsub :: "logd \<Rightarrow> real \<Rightarrow> logd" where
  "lsub (LogVal a) r = LogVal (a - r)"
| "lsub LOG_0 r = LOG_0"

text \<open>Modelled from the spec: \<^verbatim>\<open>logAdd\<close> of \<^verbatim>\<open>SailfishMath.hpp\<close> (not among the sources),
  the log-sum-exp of two log-domain numbers.\<close>

fun logAdd :: "logd \<Rightarrow> logd \<Rightarrow> logd" where
  "logAdd LOG_0 y = y"
| "logAdd x LOG_0 = x"
| "logAdd (LogVal a) (LogVal b) = LogVal (ln (exp a + exp b))"

text \<open>Modelled from the spec: \<^verbatim>\<open>std::exp\<close> on a log-domain number, \<^verbatim>\<open>LOG_0\<close> being the
  logarithm of probability zero (the header that fixes its value is not among the
  sources).\<close>

fun expL :: "logd \<Rightarrow> real" where
  "expL LOG_0 = 0"
| "expL (LogVal a) = exp a"

subsection \<open>Library formats\<close>

text \<open>
  Modelled from the spec: \<^verbatim>\<open>LibraryFormat.hpp\<close> is not among the sources; a format
  is a read type, an orientation and a strandedness.
\<close>

datatype ReadType = SINGLE_END | PAIRED_END
datatype ReadOrientation = O_SAME | O_AWAY | O_TOWARD | O_NONE
datatype ReadStrandedness = S_SA | S_AS | S_S | S_A | S_U

record LibraryFormat =
  rtype :: ReadType
  orientation :: ReadOrientation
  strandedness :: ReadStrandedness

definition logAlignFormatProb :: "LibraryFormat \<Rightarrow> LibraryFormat \<Rightarrow> logd" where
  "logAlignFormatProb observed expected =
     (if rtype observed \<noteq> rtype expected \<or> orientation observed \<noteq> orientation expected
      then LOG_0
      else if strandedness expected = S_U then LOG_ONEHALF
      else if strandedness expected = strandedness observed then LOG_1
      else LOG_0)"

subsection \<open>Alignments, transcripts and the shared state\<close>

record SMEMAlignment =
  transcriptID :: nat
  format :: LibraryFormat
  score :: dbl
  fragLength :: u32
  logProb :: logd

text \<open>
  Modelled from the spec: \<^verbatim>\<open>Transcript.hpp\<close> is not among the sources. A transcript
  has its reference length, its mass (a log-domain number, accumulated by
  log-add) and its counts.
\<close>

record Transcript =
  RefLength :: nat
  mass :: logd
  totalCount :: nat
  uniqueCount :: nat

text \<open>Modelled from the spec: \<^verbatim>\<open>Transcript::addMass\<close>, \<^verbatim>\<open>addTotalCount\<close> and
  \<^verbatim>\<open>addUniqueCount\<close> (\<^verbatim>\<open>Transcript.hpp\<close> is not among the sources): the mass is
  accumulated by log-add, the counts by addition.\<close>

definition addMass :: "logd \<Rightarrow> Transcript \<Rightarrow> Transcript" where
  "addMass m t = t\<lparr>mass := logAdd (mass t) m\<rparr>"

definition addTotalCount :: "nat \<Rightarrow> Transcript \<Rightarrow> Transcript" where
  "addTotalCount n t = t\<lparr>totalCount := totalCount t + n\<rparr>"

definition addUniqueCount :: "nat \<Rightarrow> Transcript \<Rightarrow> Transcript" where
  "addUniqueCount n t = t\<lparr>uniqueCount := uniqueCount t + n\<rparr>"

text \<open>
  \<^verbatim>\<open>ClusterForest\<close> and \<^verbatim>\<open>FragmentLengthDistribution\<close> are not among the sources.
  Each is represented by the calls made on it, in order: the forest by its
  \<^verbatim>\<open>updateCluster\<close> and \<^verbatim>\<open>mergeClusters\<close> calls, the distribution by its
  \<^verbatim>\<open>addVal\<close> calls (length and weight). The value \<^verbatim>\<open>pmf\<close> returns is a parameter: a
  function of the calls made so far.
\<close>

datatype ClusterOp = UpdateCluster nat nat real bool | MergeClusters "nat list"

type_synonym FLD = "(u32 \<times> real) list"

record EMState =
  transcripts :: "Transcript list"
  clusterForest :: "ClusterOp list"
  fragLengthDist :: FLD
  numAssignedFragments :: nat
  burnedIn :: bool
  draws :: nat
  libTypeCounts :: "LibraryFormat \<Rightarrow> nat"

text \<open>
  What a call of \<^verbatim>\<open>processMiniBatch\<close> receives besides the batch and the shared
  state: the forgetting mass, the two options, the library's expected format,
  \<^verbatim>\<open>initialRound\<close>, the \<^verbatim>\<open>pmf\<close> of the length distribution, and the uniform
  variates of the random engine, \<open>uni k\<close> being the \<open>k\<close>-th one drawn.
\<close>

record EMParams =
  logForgettingMass :: real
  useFragLenDist :: bool
  useReadCompat :: bool
  expectedLibraryFormat :: LibraryFormat
  initialRound :: bool
  pmf :: "FLD \<Rightarrow> u32 \<Rightarrow> logd"
  uni :: "nat \<Rightarrow> real"

definition numBurninFrags :: nat where
  "numBurninFrags = 5000000"

subsection \<open>The E-step\<close>

text \<open>The value assigned to \<^verbatim>\<open>aln.logProb\<close> for a transcript whose mass is not
  \<^verbatim>\<open>LOG_0\<close>.\<close>

definition refLengthOf :: "Transcript \<Rightarrow> real" where
  "refLengthOf t = (if RefLength t > 0 then real (RefLength t) else 1)"

definition logFragProbOf :: "EMParams \<Rightarrow> FLD \<Rightarrow> SMEMAlignment \<Rightarrow> logd" where
  "logFragProbOf P fld aln =
     (if useFragLenDist P then (if fragLength aln > 0 then pmf P fld (fragLength aln) else LOG_1)
      else LOG_1)"

definition logAlignCompatProbOf :: "EMParams \<Rightarrow> SMEMAlignment \<Rightarrow> logd" where
  "logAlignCompatProbOf P aln =
     (if useReadCompat P then logAlignFormatProb (format aln) (expectedLibraryFormat P) else LOG_1)"

definition alnLogProb :: "EMParams \<Rightarrow> FLD \<Rightarrow> Transcript \<Rightarrow> SMEMAlignment \<Rightarrow> logd" where
  "alnLogProb P fld t aln =
     ladd (ladd (lsub (mass t) (ln (refLengthOf t))) (logFragProbOf P fld aln))
          (logAlignCompatProbOf P aln)"

text \<open>The variables the first loop over a group's alignments updates.\<close>

record EAcc =
  sumOfAlignProbs :: logd
  transcriptUnique :: bool
  observedTranscripts :: "nat set"
  accTranscripts :: "Transcript list"
  accLibTypeCounts :: "LibraryFormat \<Rightarrow> nat"

text \<open>The body of the first loop over the alignments of one group, for an alignment
  whose transcript id lies inside the vector.\<close>

definition eStepAln :: "EMParams \<Rightarrow> FLD \<Rightarrow> nat \<Rightarrow> SMEMAlignment \<Rightarrow> EAcc \<Rightarrow> SMEMAlignment \<times> EAcc" where
  "eStepAln P fld firstTranscriptID aln acc =
     (let tid = transcriptID aln;
          transcript = accTranscripts acc ! tid;
          acc1 = acc\<lparr>transcriptUnique := (transcriptUnique acc \<and> tid = firstTranscriptID)\<rparr>
      in if mass transcript \<noteq> LOG_0 then
           (let lp = alnLogProb P fld transcript aln;
                acc1a = acc1\<lparr>accLibTypeCounts := (accLibTypeCounts acc1)
                          (format aln := accLibTypeCounts acc1 (format aln) + 1),
                        sumOfAlignProbs := logAdd (sumOfAlignProbs acc1) lp\<rparr>
            in (aln\<lparr>logProb := lp\<rparr>,
                if tid \<notin> observedTranscripts acc1a then
                  acc1a\<lparr>accTranscripts :=
                           (if initialRound P
                            then (accTranscripts acc1a)[tid := addTotalCount 1 transcript]
                            else accTranscripts acc1a),
                         observedTranscripts := insert tid (observedTranscripts acc1a)\<rparr>
                else acc1a))
         else (aln\<lparr>logProb := LOG_0\<rparr>, acc1))"

text \<open>
  The first loop over the alignments of one group. \<open>None\<close> stands for the access
  \<^verbatim>\<open>transcripts[transcriptID]\<close> outside the vector, which C++ leaves undefined.
\<close>

fun eStepAlns ::
  "EMParams \<Rightarrow> FLD \<Rightarrow> nat \<Rightarrow> SMEMAlignment list \<Rightarrow> EAcc \<Rightarrow> (SMEMAlignment list \<times> EAcc) option" where
  "eStepAlns P fld firstTranscriptID [] acc = Some ([], acc)"
| "eStepAlns P fld firstTranscriptID (aln # alns) acc =
     (if length (accTranscripts acc) \<le> transcriptID aln then None
      else
        (case eStepAln P fld firstTranscriptID aln acc of
           (aln', acc2) \<Rightarrow>
             (case eStepAlns P fld firstTranscriptID alns acc2 of
                None \<Rightarrow> None
              | Some (alns', acc3) \<Rightarrow> Some (aln' # alns', acc3))))"

subsection \<open>Normalisation and sampling\<close>

text \<open>
  The second loop, run when the sum is \<open>LogVal s\<close>: subtract the sum, draw a
  uniform variate, and while not burned in add the fragment length to the length
  distribution when the variate is below the alignment's probability and the
  length is positive. The state is the distribution and the number of variates
  drawn.
\<close>

definition sampleFLD :: "EMParams \<Rightarrow> bool \<Rightarrow> SMEMAlignment \<Rightarrow> real \<Rightarrow> FLD \<Rightarrow> FLD" where
  "sampleFLD P burned aln r fld =
     (if \<not> burned \<and> r < expL (logProb aln) then
        (if fragLength aln > 0 then fld @ [(fragLength aln, logForgettingMass P)] else fld)
      else fld)"

fun normalizeAlns ::
  "EMParams \<Rightarrow> bool \<Rightarrow> real \<Rightarrow> SMEMAlignment list \<Rightarrow> FLD \<Rightarrow> nat
     \<Rightarrow> SMEMAlignment list \<times> FLD \<times> nat" where
  "normalizeAlns P burned s [] fld n = ([], fld, n)"
| "normalizeAlns P burned s (aln # alns) fld n =
     (let aln' = aln\<lparr>logProb := lsub (logProb aln) s\<rparr>;
          r = uni P n
      in case normalizeAlns P burned s alns (sampleFLD P burned aln' r fld) (n + 1) of
           (alns', fld', n') \<Rightarrow> (aln' # alns', fld', n'))"

subsection \<open>One alignment group\<close>

definition initAcc :: "EMState \<Rightarrow> EAcc" where
  "initAcc st = \<lparr>sumOfAlignProbs = LOG_0, transcriptUnique = True, observedTranscripts = {},
                 accTranscripts = transcripts st, accLibTypeCounts = libTypeCounts st\<rparr>"

text \<open>
  The cluster update that ends the processing of an assigned group, and the body
  of the loop over the groups of the batch; the second component of the
  state is \<^verbatim>\<open>localNumAssignedFragments\<close>. The counts of library types are kept in
  the state directly (the source collects them in a local vector and adds it to
  the library at the end of the batch).
\<close>

definition clusterUpdate :: "EMParams \<Rightarrow> bool \<Rightarrow> nat \<Rightarrow> SMEMAlignment list \<Rightarrow> EMState \<Rightarrow> EMState" where
  "clusterUpdate P unique firstTranscriptID alns st =
     (if unique then
        st\<lparr>transcripts :=
             (if initialRound P
              then (transcripts st)[firstTranscriptID :=
                     addUniqueCount 1 (transcripts st ! firstTranscriptID)]
              else transcripts st),
           clusterForest := clusterForest st @
             [UpdateCluster firstTranscriptID 1 (logForgettingMass P) (initialRound P)]\<rparr>
      else
        st\<lparr>clusterForest := clusterForest st @
             [MergeClusters (map transcriptID alns),
              UpdateCluster firstTranscriptID 1 (logForgettingMass P) (initialRound P)]\<rparr>)"

definition processGroup ::
  "EMParams \<Rightarrow> SMEMAlignment list \<Rightarrow> EMState \<times> nat \<Rightarrow> (SMEMAlignment list \<times> EMState \<times> nat) option" where
  "processGroup P alnGroup stn =
     (case stn of (st, localNumAssigned) \<Rightarrow>
      case alnGroup of
        [] \<Rightarrow> Some ([], st, localNumAssigned)
      | front # rest \<Rightarrow>
          (let firstTranscriptID = transcriptID front in
           case eStepAlns P (fragLengthDist st) firstTranscriptID alnGroup (initAcc st) of
             None \<Rightarrow> None
           | Some (alns1, acc) \<Rightarrow>
               (let st1 = st\<lparr>transcripts := accTranscripts acc,
                             libTypeCounts := accLibTypeCounts acc\<rparr>
                in case sumOfAlignProbs acc of
                     LOG_0 \<Rightarrow> Some (alns1, st1, localNumAssigned)
                   | LogVal s \<Rightarrow>
                       (case normalizeAlns P (burnedIn st1) s alns1 (fragLengthDist st1) (draws st1) of
                          (alns2, fld', n') \<Rightarrow>
                            Some (alns2,
                                  clusterUpdate P (transcriptUnique acc) firstTranscriptID alns2
                                    (st1\<lparr>fragLengthDist := fld', draws := n'\<rparr>),
                                  localNumAssigned + 1)))))"

fun processGroups ::
  "EMParams \<Rightarrow> SMEMAlignment list list \<Rightarrow> EMState \<times> nat
     \<Rightarrow> (SMEMAlignment list list \<times> EMState \<times> nat) option" where
  "processGroups P [] stn = Some ([], stn)"
| "processGroups P (g # gs) stn =
     (case processGroup P g stn of
        None \<Rightarrow> None
      | Some (g', stn') \<Rightarrow>
          (case processGroups P gs stn' of
             None \<Rightarrow> None
           | Some (gs', stn'') \<Rightarrow> Some (g' # gs', stn'')))"

subsection \<open>The M-step and the whole call\<close>

text \<open>
  \<^verbatim>\<open>hitsForTranscript\<close> maps each transcript id of the batch to its alignments, in
  batch order; the M-step walks its keys in increasing order and adds
  \<^verbatim>\<open>logForgettingMass + hitMass\<close> to the transcript's mass.
\<close>

definition hitMassOf :: "SMEMAlignment list \<Rightarrow> nat \<Rightarrow> logd" where
  "hitMassOf alns tid =
     foldl logAdd LOG_0 (map logProb (filter (\<lambda>a. transcriptID a = tid) alns))"

definition mStep :: "real \<Rightarrow> SMEMAlignment list \<Rightarrow> Transcript list \<Rightarrow> Transcript list" where
  "mStep lfm alns ts =
     foldl (\<lambda>ts' tid. ts'[tid := addMass (ladd (LogVal lfm) (hitMassOf alns tid)) (ts' ! tid)])
       ts (sort (remdups (map transcriptID alns)))"

definition processMiniBatch ::
  "EMParams \<Rightarrow> SMEMAlignment list list \<Rightarrow> EMState \<Rightarrow> (SMEMAlignment list list \<times> EMState) option" where
  "processMiniBatch P batchHits st =
     (case processGroups P batchHits (st, 0) of
        None \<Rightarrow> None
      | Some (batchHits', st1, localNumAssignedFragments) \<Rightarrow>
          (let st2 = st1\<lparr>transcripts :=
                          mStep (logForgettingMass P) (concat batchHits') (transcripts st1)\<rparr>;
               st3 = st2\<lparr>numAssignedFragments :=
                          numAssignedFragments st2 + localNumAssignedFragments\<rparr>;
               st4 = (if numBurninFrags \<le> numAssignedFragments st3 \<and> \<not> burnedIn st3
                      then st3\<lparr>burnedIn := True\<rparr> else st3)
           in Some (batchHits', st4)))"

subsection \<open>Rounds\<close>

text \<open>
  The successive calls of one round (one call of \<^verbatim>\<open>ReadExperiment::processReads\<close>),
  as the loop of \<^verbatim>\<open>processReadsMEM\<close> or, in a round that replays the mapping
  cache, of \<^verbatim>\<open>processCachedAlignmentsHelper\<close> makes them on one thread: each with
  its own forgetting mass and batch, all on the shared state. Within the round the
  flag \<^verbatim>\<open>burnedIn\<close> and the counter \<^verbatim>\<open>numAssignedFragments\<close> are the same
  variables for every call.
\<close>

fun runBatches :: "(EMParams \<times> SMEMAlignment list list) list \<Rightarrow> EMState \<Rightarrow> EMState option" where
  "runBatches [] st = Some st"
| "runBatches ((P, b) # rest) st =
     (case processMiniBatch P b st of
        None \<Rightarrow> None
      | Some (b', st') \<Rightarrow> runBatches rest st')"

text \<open>
  \<^verbatim>\<open>ReadExperiment\<close> keeps the counter \<^verbatim>\<open>numAssignedFragments_\<close> that the workers
  advance and the sum \<^verbatim>\<open>totalAssignedFragments_\<close> of the earlier rounds; here the
  counter is the field of the shared state, which also holds what
  \<^verbatim>\<open>quantifyLibrary\<close> owns (the length distribution) and the flag.
\<close>

record ReadExperiment =
  totalAssignedFragments :: nat
  emState :: EMState

text \<open>
  \<^verbatim>\<open>softReset\<close>, and \<^verbatim>\<open>reset\<close> on regular files: the round's count is added to
  the total and the counter is set to zero. (The pass counter and the experiment's
  own count of observed fragments are not modelled.)
\<close>

definition softReset :: "ReadExperiment \<Rightarrow> ReadExperiment" where
  "softReset ex =
     ex\<lparr>totalAssignedFragments := totalAssignedFragments ex + numAssignedFragments (emState ex),
        emState := (emState ex)\<lparr>numAssignedFragments := 0\<rparr>\<rparr>"

text \<open>
  \<^verbatim>\<open>processReads\<close> declares the flag anew,
  \<^verbatim>\<open>bool burnedIn = (totalAssignedFragments_ + numAssignedFragments_ > 5000000)\<close>,
  and hands it by reference, with the counter, to the workers of every library of
  the round; \<open>calls\<close> are the calls of \<^verbatim>\<open>processMiniBatch\<close> of the round, in the
  order they are made.
\<close>

definition processReads ::
  "(EMParams \<times> SMEMAlignment list list) list \<Rightarrow> ReadExperiment \<Rightarrow> ReadExperiment option" where
  "processReads calls ex =
     (let burned = (5000000 < totalAssignedFragments ex + numAssignedFragments (emState ex))
      in map_option (\<lambda>st. ex\<lparr>emState := st\<rparr>)
           (runBatches calls ((emState ex)\<lparr>burnedIn := burned\<rparr>)))"

text \<open>
  The loop of \<^verbatim>\<open>quantifyLibrary\<close>, which makes one round after the other as long
  as fewer than \<^verbatim>\<open>numRequiredFragments\<close> fragments have been observed: the first
  round starts from the experiment as constructed, every later round from its
  \<^verbatim>\<open>softReset\<close> (or \<^verbatim>\<open>reset\<close>; a \<^verbatim>\<open>reset\<close> that fails ends the loop). The
  rounds the loop makes are given as the list of their calls.
\<close>

fun quantifyRounds ::
  "bool \<Rightarrow> (EMParams \<times> SMEMAlignment list list) list list \<Rightarrow> ReadExperiment
     \<Rightarrow> ReadExperiment option" where
  "quantifyRounds first [] ex = Some ex"
| "quantifyRounds first (r # rs) ex =
     (case processReads r (if first then ex else softReset ex) of
        None \<Rightarrow> None
      | Some ex' \<Rightarrow> quantifyRounds False rs ex')"

definition quantifyLibrary ::
  "(EMParams \<times> SMEMAlignment list list) list list \<Rightarrow> ReadExperiment \<Rightarrow> ReadExperiment option" where
  "quantifyLibrary rounds ex = quantifyRounds True rounds ex"

text \<open>
  The end of the loop body of \<^verbatim>\<open>processReadsMEM\<close> for one fragment: a group with
  more than \<^verbatim>\<open>maxReadOccs\<close> alignments is cleared, then the counters
  \<^verbatim>\<open>validHits\<close> and \<^verbatim>\<open>numObservedFragments\<close> are advanced.
\<close>

definition observeFragment ::
  "nat \<Rightarrow> SMEMAlignment list \<Rightarrow> nat \<times> nat \<Rightarrow> SMEMAlignment list \<times> nat \<times> nat" where
  "observeFragment maxReadOccs hitList counters =
     (case counters of (validHits, numObservedFragments) \<Rightarrow>
      let hitList' = (if maxReadOccs < length hitList then [] else hitList)
      in (hitList', validHits + length hitList', numObservedFragments + 1))"


subsection \<open>Auxiliary definitions for the proofs about the EM worker\<close>

text \<open>Two transcript vectors that agree on mass and reference length; the value the
  E-step gives an alignment; the normalisation of one alignment; the E-step on a
  group; the result of a non-empty group; and what stands behind one entry added
  to the length distribution.\<close>

definition sameMR :: "Transcript list \<Rightarrow> Transcript list \<Rightarrow> bool" where
  "sameMR ts ts' = (length ts' = length ts \<and>
     (\<forall>i<length ts. mass (ts' ! i) = mass (ts ! i) \<and> RefLength (ts' ! i) = RefLength (ts ! i)))"

definition eLogProb :: "EMParams \<Rightarrow> FLD \<Rightarrow> Transcript list \<Rightarrow> SMEMAlignment \<Rightarrow> logd" where
  "eLogProb P fld ts a =
     (if mass (ts ! transcriptID a) = LOG_0 then LOG_0
      else alnLogProb P fld (ts ! transcriptID a) a)"

definition normAln :: "real \<Rightarrow> SMEMAlignment \<Rightarrow> SMEMAlignment" where
  "normAln s a = a\<lparr>logProb := lsub (logProb a) s\<rparr>"

definition eGroup :: "EMParams \<Rightarrow> EMState \<Rightarrow> SMEMAlignment list \<Rightarrow> SMEMAlignment list" where
  "eGroup P st g = map (\<lambda>a. a\<lparr>logProb := eLogProb P (fragLengthDist st) (transcripts st) a\<rparr>) g"

definition groupOutcome ::
  "EMParams \<Rightarrow> EMState \<Rightarrow> SMEMAlignment list \<Rightarrow> nat \<Rightarrow> EAcc \<Rightarrow> SMEMAlignment list \<times> EMState \<times> nat" where
  "groupOutcome P st g n acc =
     (case sumOfAlignProbs acc of
               LOG_0 \<Rightarrow> (eGroup P st g,
                          st\<lparr>transcripts := accTranscripts acc,
                             libTypeCounts := accLibTypeCounts acc\<rparr>, n)
             | LogVal s \<Rightarrow>
                 (case normalizeAlns P (burnedIn st) s (eGroup P st g) (fragLengthDist st) (draws st) of
                    (alns2, fld', n') \<Rightarrow>
                      (alns2,
                       clusterUpdate P (transcriptUnique acc) (transcriptID (hd g)) alns2
                         (st\<lparr>transcripts := accTranscripts acc,
                             libTypeCounts := accLibTypeCounts acc,
                             fragLengthDist := fld', draws := n'\<rparr>),
                       n + 1)))"

definition fldEvidence :: "EMParams \<Rightarrow> EMState \<Rightarrow> EMState \<Rightarrow> SMEMAlignment list list \<Rightarrow> u32 \<times> real \<Rightarrow> bool" where
  "fldEvidence P st st' gs e =
     (\<not> burnedIn st \<and> 0 < fst e \<and> snd e = logForgettingMass P \<and>
      (\<exists>g\<in>set gs. \<exists>a\<in>set g. \<exists>k. draws st \<le> k \<and> k < draws st' \<and> fragLength a = fst e \<and>
          uni P k < expL (logProb a)))"

subsection \<open>A small example\<close>

text \<open>Two transcripts of length 1, the first of mass \<open>log 1\<close>; alignments of fragment
  length 200; every uniform variate is 1/4.\<close>

definition exFormat :: LibraryFormat where
  "exFormat = \<lparr>rtype = PAIRED_END, orientation = O_TOWARD, strandedness = S_U\<rparr>"

definition exParams :: EMParams where
  "exParams = \<lparr>logForgettingMass = 0, useFragLenDist = False, useReadCompat = False,
               expectedLibraryFormat = exFormat, initialRound = True,
               pmf = (\<lambda>fld l. LOG_1), uni = (\<lambda>k. 1 / 4)\<rparr>"

definition exAln :: "nat \<Rightarrow> SMEMAlignment" where
  "exAln tid = \<lparr>transcriptID = tid, format = exFormat, score = Fin 1, fragLength = 200,
                logProb = LOG_0\<rparr>"

definition exTranscript :: "logd \<Rightarrow> Transcript" where
  "exTranscript m = \<lparr>RefLength = 1, mass = m, totalCount = 0, uniqueCount = 0\<rparr>"

definition exState :: "logd \<Rightarrow> EMState" where
  "exState m = \<lparr>transcripts = [exTranscript (LogVal 0), exTranscript m], clusterForest = [],
                fragLengthDist = [], numAssignedFragments = 0, burnedIn = False, draws = 0,
                libTypeCounts = (\<lambda>f. 0)\<rparr>"

text \<open>
  A run of whole mini-batches: every batch holds \<open>k\<close> reads (at most
  \<^verbatim>\<open>miniBatchSize\<close> = 1000 in the program), each with the one alignment
  \<open>exAln 0\<close>; the \<open>i\<close>-th call has the forgetting mass \<open>m i\<close>. The experiment starts
  as constructed, with no fragment assigned.
\<close>

definition exCall :: "bool \<Rightarrow> real \<Rightarrow> nat \<Rightarrow> EMParams \<times> SMEMAlignment list list" where
  "exCall first lfm k =
     (exParams\<lparr>logForgettingMass := lfm, initialRound := first\<rparr>, replicate k [exAln 0])"

definition exRound :: "bool \<Rightarrow> (nat \<Rightarrow> real) \<Rightarrow> nat \<Rightarrow> nat
    \<Rightarrow> (EMParams \<times> SMEMAlignment list list) list" where
  "exRound first m n k = map (\<lambda>i. exCall first (m i) k) [0..<n]"

definition exExperiment :: ReadExperiment where
  "exExperiment = \<lparr>totalAssignedFragments = 0, emState = exState (LogVal 0)\<rparr>"

section \<open>Paired-end fragments: \<^verbatim>\<open>getHitsForFragment\<close>\<close>

text \<open>
  The two maps from transcript to hit list that \<^verbatim>\<open>collectHitsForRead\<close> fills are
  given as lists of key and value in the order the loops visit them;
  \<^verbatim>\<open>leftHits.find\<close> is \<open>map_of\<close>. \<^verbatim>\<open>salmon::utils::hitType\<close> is not among the sources
  and is a parameter. The first loop runs \<^verbatim>\<open>computeBestChain\<close> on every left hit
  list.
\<close>

fun chainAll :: "u32 \<Rightarrow> (nat \<times> TranscriptHitList) list \<Rightarrow> (nat \<times> TranscriptHitList) list option" where
  "chainAll readLen [] = Some []"
| "chainAll readLen ((tid, h) # rest) =
     (case computeBestChain readLen h of
        None \<Rightarrow> None
      | Some h' \<Rightarrow>
          (case chainAll readLen rest of
             None \<Rightarrow> None
           | Some rest' \<Rightarrow> Some ((tid, h') # rest')))"

text \<open>The alignment that the second loop emits for a transcript whose two ends
  passed the cutoff.\<close>

definition pairedAlignment ::
  "(u32 \<Rightarrow> bool \<Rightarrow> u32 \<Rightarrow> bool \<Rightarrow> LibraryFormat) \<Rightarrow> u32 \<Rightarrow> u32 \<Rightarrow> nat
     \<Rightarrow> TranscriptHitList \<Rightarrow> TranscriptHitList \<Rightarrow> SMEMAlignment" where
  "pairedAlignment hitType leftReadLength rightReadLength tid l r =
     (let end1Start = bestHitPos l;
          end2Start = bestHitPos r;
          sc = dbl_avg (bestHitScore l) (bestHitScore r);
          fl = word_of_int \<bar>sint end1Start - sint end2Start\<bar> + rightReadLength;
          end1IsForward = isForward l;
          end2IsForward = isForward r;
          end1Pos = (if end1IsForward then bestHitPos l else bestHitPos l + leftReadLength);
          end2Pos = (if end2IsForward then bestHitPos r else bestHitPos r + rightReadLength)
      in \<lparr>transcriptID = tid, format = hitType end1Pos end1IsForward end2Pos end2IsForward,
          score = sc, fragLength = fl, logProb = LOG_0\<rparr>)"

text \<open>The second loop, over the right hit lists; the result is \<^verbatim>\<open>alnList\<close>.\<close>

fun pairLoop ::
  "(u32 \<Rightarrow> bool \<Rightarrow> u32 \<Rightarrow> bool \<Rightarrow> LibraryFormat) \<Rightarrow> real \<Rightarrow> u32 \<Rightarrow> u32
     \<Rightarrow> (nat \<times> TranscriptHitList) list \<Rightarrow> (nat \<times> TranscriptHitList) list
     \<Rightarrow> SMEMAlignment list option" where
  "pairLoop hitType cutoff leftReadLength rightReadLength leftHits [] = Some []"
| "pairLoop hitType cutoff leftReadLength rightReadLength leftHits ((tid, h) # rest) =
     (case map_of leftHits tid of
        None \<Rightarrow> pairLoop hitType cutoff leftReadLength rightReadLength leftHits rest
      | Some l \<Rightarrow>
          if dbl_ge (bestHitScore l) cutoff then
            (case computeBestChain rightReadLength h of
               None \<Rightarrow> None
             | Some r \<Rightarrow>
                 if dbl_lt (bestHitScore r) cutoff
                 then pairLoop hitType cutoff leftReadLength rightReadLength leftHits rest
                 else
                   (case pairLoop hitType cutoff leftReadLength rightReadLength leftHits rest of
                      None \<Rightarrow> None
                    | Some alns \<Rightarrow>
                        Some (pairedAlignment hitType leftReadLength rightReadLength tid l r # alns)))
          else pairLoop hitType cutoff leftReadLength rightReadLength leftHits rest)"

definition getHitsForFragment ::
  "(u32 \<Rightarrow> bool \<Rightarrow> u32 \<Rightarrow> bool \<Rightarrow> LibraryFormat) \<Rightarrow> real \<Rightarrow> u32 \<Rightarrow> u32
     \<Rightarrow> (nat \<times> TranscriptHitList) list \<Rightarrow> (nat \<times> TranscriptHitList) list
     \<Rightarrow> SMEMAlignment list option" where
  "getHitsForFragment hitType coverageThresh leftReadLength rightReadLength leftHits rightHits =
     (case chainAll leftReadLength leftHits of
        None \<Rightarrow> None
      | Some leftHits' \<Rightarrow>
          pairLoop hitType coverageThresh leftReadLength rightReadLength leftHits' rightHits)"

text \<open>What stands behind an emitted alignment: the chained hit lists of the two ends
  on its transcript.\<close>

definition pairedFrom ::
  "u32 \<Rightarrow> u32 \<Rightarrow> (nat \<times> TranscriptHitList) list \<Rightarrow> (nat \<times> TranscriptHitList) list
     \<Rightarrow> SMEMAlignment \<Rightarrow> TranscriptHitList \<Rightarrow> TranscriptHitList \<Rightarrow> bool" where
  "pairedFrom leftReadLength rightReadLength leftHits rightHits a l r =
     ((\<exists>l0. map_of leftHits (transcriptID a) = Some l0 \<and> computeBestChain leftReadLength l0 = Some l) \<and>
      (\<exists>r0. (transcriptID a, r0) \<in> set rightHits \<and> computeBestChain rightReadLength r0 = Some r))"

text \<open>An example: reads of length 30, the first end placed forward at position 10 of
  transcript 0, the second reverse-complement at position 210.\<close>

definition exHitType :: "u32 \<Rightarrow> bool \<Rightarrow> u32 \<Rightarrow> bool \<Rightarrow> LibraryFormat" where
  "exHitType p1 f1 p2 f2 = \<lparr>rtype = PAIRED_END, orientation = O_TOWARD, strandedness = S_U\<rparr>"

definition exLeftHits :: "(nat \<times> TranscriptHitList) list" where
  "exLeftHits = [(0, emptyHitList\<lparr>votes := [mkVote 10 0 30]\<rparr>)]"

definition exRightHits :: "(nat \<times> TranscriptHitList) list" where
  "exRightHits = [(0, emptyHitList\<lparr>rcVotes := [mkVote 210 0 30]\<rparr>)]"

definition exPairAln :: SMEMAlignment where
  "exPairAln = \<lparr>transcriptID = 0, format = exHitType 10 True 240 False, score = Fin 1,
                fragLength = 230, logProb = LOG_0\<rparr>"


section \<open>Proofs: the coverage chainer\<close>

lemma bestLocLoop_total:
  "sorted (map (\<lambda>v. sint (votePos v)) vs) \<Longrightarrow> \<forall>v\<in>set vs. sint cc \<le> sint (votePos v)
   \<Longrightarrow> bestLocLoop rl vs cc hm mx upd \<noteq> None"
proof (induction vs arbitrary: cc hm mx upd)
  case Nil
  then show ?case by simp
next
  case (Cons v vs)
  let ?cc = "if sint (votePos v) - sint cc > 10 then votePos v else cc"
  have le: "sint cc \<le> sint (votePos v)" using Cons.prems by simp
  have srt: "sorted (map (\<lambda>v. sint (votePos v)) vs)" using Cons.prems by simp
  have bnd: "\<forall>w\<in>set vs. sint ?cc \<le> sint (votePos w)" using Cons.prems by auto
  show ?case using le Cons.IH [OF srt bnd] by (simp add: Let_def)
qed

lemma bestLocLoop_peak:
  "bestLocLoop rl vs cc hm mx upd = Some (mx', upd') \<Longrightarrow>
     maxClusterCount mx' = max (maxClusterCount mx) (peakCov vs cc hm) \<and>
     upd' = (upd \<or> maxClusterCount mx < peakCov vs cc hm)"
proof (induction vs arbitrary: cc hm mx upd)
  case Nil
  then show ?case by (auto simp: max_def)
next
  case (Cons v vs)
  define cc' where "cc' = (if sint (votePos v) - sint cc > 10 then votePos v else cc)"
  define e' where "e' = \<lparr>coverage = coverage (hm cc') +
      min (voteLen v) (votePos v + readPos v + voteLen v - rightmostBase (hm cc')),
      rightmostBase = votePos v + readPos v + voteLen v\<rparr>"
  define hm' where "hm' = hm(cc' := e')"
  define c where "c = coverage e'"
  define mxn where "mxn = \<lparr>maxClusterPos = cc', maxClusterCount = c, maxClusterScore = fdiv c rl\<rparr>"
  have pk: "peakCov (v # vs) cc hm = max c (peakCov vs cc' hm')"
    by (simp add: Let_def cc'_def e'_def hm'_def c_def)
  have le: "sint cc \<le> sint (votePos v)"
    using Cons.prems by (auto split: if_splits)
  show ?case
  proof (cases "maxClusterCount mx < c")
    case True
    have run: "bestLocLoop rl vs cc' hm' mxn True = Some (mx', upd')"
      using Cons.prems le True by (simp add: Let_def cc'_def e'_def hm'_def c_def mxn_def)
    have "maxClusterCount mx' = max c (peakCov vs cc' hm') \<and> upd'"
      using Cons.IH [OF run] by (simp add: mxn_def)
    then show ?thesis using True pk by (auto simp: max_def)
  next
    case False
    have run: "bestLocLoop rl vs cc' hm' mx upd = Some (mx', upd')"
      using Cons.prems le False by (simp add: Let_def cc'_def e'_def hm'_def c_def)
    have "maxClusterCount mx' = max (maxClusterCount mx) (peakCov vs cc' hm') \<and>
          upd' = (upd \<or> maxClusterCount mx < peakCov vs cc' hm')"
      using Cons.IH [OF run] .
    then show ?thesis using False pk by (auto simp: max_def)
  qed
qed

lemma bestLocLoop_score:
  "bestLocLoop rl vs cc hm mx upd = Some (mx', upd') \<Longrightarrow>
   maxClusterScore mx = fdiv (maxClusterCount mx) rl \<Longrightarrow>
   maxClusterScore mx' = fdiv (maxClusterCount mx') rl"
proof (induction vs arbitrary: cc hm mx upd)
  case Nil
  then show ?case by simp
next
  case (Cons v vs)
  then show ?case
    by (auto simp: Let_def split: if_splits)
qed

lemma sorted_votePos_sortVotes: "sorted (map (\<lambda>v. sint (votePos v)) (sortVotes vs))"
proof -
  have "sorted (map voteKey (sortVotes vs))" by (simp add: sortVotes_def)
  then have "sorted_wrt (\<lambda>a b. voteKey a \<le> voteKey b) (sortVotes vs)"
    by (simp add: sorted_map)
  then have "sorted_wrt (\<lambda>a b. sint (votePos a) \<le> sint (votePos b)) (sortVotes vs)"
    by (rule sorted_wrt_mono_rel [rotated]) (auto simp: voteKey_def less_eq_prod_def)
  then show ?thesis by (simp add: sorted_map)
qed

lemma computeBestLoc_total: "computeBestLoc rl (sortVotes vs) mx \<noteq> None"
proof (cases "sortVotes vs")
  case Nil
  then show ?thesis by (simp add: computeBestLoc_def)
next
  case (Cons v ws)
  have s: "sorted (map (\<lambda>v. sint (votePos v)) (v # ws))"
    using sorted_votePos_sortVotes [of vs] Cons by simp
  then have "\<forall>w\<in>set (v # ws). sint (votePos v) \<le> sint (votePos w)" by auto
  from bestLocLoop_total [OF s this] show ?thesis
    using Cons by (simp add: computeBestLoc_def)
qed

lemma computeBestLoc_peak:
  assumes "computeBestLoc rl (sortVotes vs) mx = Some (mx', upd')"
  shows "maxClusterCount mx' = max (maxClusterCount mx) (strandPeak vs)"
    and "upd' = (maxClusterCount mx < strandPeak vs)"
proof -
  have "maxClusterCount mx' = max (maxClusterCount mx) (strandPeak vs) \<and>
        upd' = (maxClusterCount mx < strandPeak vs)"
  proof (cases "sortVotes vs")
    case Nil
    then show ?thesis using assms by (auto simp: computeBestLoc_def strandPeak_def max_def)
  next
    case (Cons v ws)
    then have "bestLocLoop rl (v # ws) (votePos v) emptyHitMap mx False = Some (mx', upd')"
      using assms by (simp add: computeBestLoc_def)
    from bestLocLoop_peak [OF this] show ?thesis using Cons by (simp add: strandPeak_def)
  qed
  then show "maxClusterCount mx' = max (maxClusterCount mx) (strandPeak vs)"
    and "upd' = (maxClusterCount mx < strandPeak vs)" by simp_all
qed

lemma computeBestLoc_score:
  assumes "computeBestLoc rl (sortVotes vs) mx = Some (mx', upd')"
    and "maxClusterScore mx = fdiv (maxClusterCount mx) rl"
  shows "maxClusterScore mx' = fdiv (maxClusterCount mx') rl"
proof (cases "sortVotes vs")
  case Nil
  then show ?thesis using assms by (auto simp: computeBestLoc_def)
next
  case (Cons v ws)
  then have "bestLocLoop rl (v # ws) (votePos v) emptyHitMap mx False = Some (mx', upd')"
    using assms by (simp add: computeBestLoc_def)
  from bestLocLoop_score [OF this assms(2)] show ?thesis .
qed

lemma zeroCluster_score: "maxClusterScore zeroCluster = fdiv (maxClusterCount zeroCluster) rl"
  by (simp add: zeroCluster_def fdiv_def)

lemma computeBestChain_result:
  "\<exists>mf uf mr ur h'.
      strandBest rl (votes h) = Some (mf, uf) \<and> strandBest rl (rcVotes h) = Some (mr, ur) \<and>
      computeBestChain rl h = Some h' \<and>
      maxClusterCount mf = strandPeak (votes h) \<and> maxClusterCount mr = strandPeak (rcVotes h) \<and>
      maxClusterScore mf = fdiv (strandPeak (votes h)) rl \<and>
      maxClusterScore mr = fdiv (strandPeak (rcVotes h)) rl \<and>
      isForward h' = (\<not> strandPeak (votes h) < strandPeak (rcVotes h)) \<and>
      bestHitCount h' = max (strandPeak (votes h)) (strandPeak (rcVotes h)) \<and>
      bestHitScore h' = fdiv (bestHitCount h') rl"
proof -
  obtain mf uf where f: "computeBestLoc rl (sortVotes (votes h)) zeroCluster = Some (mf, uf)"
    using computeBestLoc_total [of rl "votes h" zeroCluster] by auto
  obtain mr ur where r: "computeBestLoc rl (sortVotes (rcVotes h)) zeroCluster = Some (mr, ur)"
    using computeBestLoc_total [of rl "rcVotes h" zeroCluster] by auto
  obtain m2 u2 where c: "computeBestLoc rl (sortVotes (rcVotes h)) mf = Some (m2, u2)"
    using computeBestLoc_total [of rl "rcVotes h" mf] by auto
  have cf: "maxClusterCount mf = strandPeak (votes h)"
    using computeBestLoc_peak(1) [OF f] by (simp add: zeroCluster_def)
  have cr: "maxClusterCount mr = strandPeak (rcVotes h)"
    using computeBestLoc_peak(1) [OF r] by (simp add: zeroCluster_def)
  have sf: "maxClusterScore mf = fdiv (maxClusterCount mf) rl"
    by (rule computeBestLoc_score [OF f zeroCluster_score])
  have sr: "maxClusterScore mr = fdiv (maxClusterCount mr) rl"
    by (rule computeBestLoc_score [OF r zeroCluster_score])
  have c2: "maxClusterCount m2 = max (strandPeak (votes h)) (strandPeak (rcVotes h))"
    using computeBestLoc_peak(1) [OF c] cf by simp
  have u2: "u2 = (strandPeak (votes h) < strandPeak (rcVotes h))"
    using computeBestLoc_peak(2) [OF c] cf by simp
  have s2: "maxClusterScore m2 = fdiv (maxClusterCount m2) rl"
    by (rule computeBestLoc_score [OF c sf])
  show ?thesis
    using f r c cf cr sf sr c2 u2 s2
    by (simp add: strandBest_def computeBestChain_def Let_def)
qed

lemma fdiv_gt:
  assumes "rl \<noteq> 0"
  shows "dbl_gt (fdiv a rl) (fdiv b rl) = (b < a)"
proof -
  have "0 < unat rl" using assms by (simp add: unat_gt_0)
  then have "(real (unat b) / real (unat rl) < real (unat a) / real (unat rl)) = (unat b < unat a)"
    by (simp add: divide_less_cancel del: of_nat_unat)
  then show ?thesis using assms by (simp add: fdiv_def word_less_nat_alt del: of_nat_unat)
qed

section \<open>Claims about the coverage chainer\<close>

text \<open>
  C8. The claim: for a fixed vote list, increasing the \<^verbatim>\<open>voteLen\<close> of one vote never
  decreases \<^verbatim>\<open>bestHitScore\<close>. The code at a concrete input: a read of length 100
  with a forward seed of length 40 at read position 0 and, on the same diagonal, a
  seed at read position 10. With \<^verbatim>\<open>voteLen\<close> 19 the second seed ends at 29, left of
  the first one's right end 40; the unsigned difference wraps and the full 19 is
  added (coverage 59, score 59/100). With \<^verbatim>\<open>voteLen\<close> 30 the seed ends at 40, the
  difference is 0 and nothing is added (coverage 40, score 2/5).
\<close>

theorem computeBestChain_voteLen_drop:
  "map_option bestHitScore
     (computeBestChain 100 (emptyHitList\<lparr>votes := [mkVote 0 0 40, mkVote 0 10 19]\<rparr>))
     = Some (Fin (59 / 100)) \<and>
   map_option bestHitScore
     (computeBestChain 100 (emptyHitList\<lparr>votes := [mkVote 0 0 40, mkVote 0 10 30]\<rparr>))
     = Some (Fin (2 / 5)) \<and>
   (2 / 5 :: real) < 59 / 100"
  by (simp add: computeBestChain_def emptyHitList_def mkVote_def sortVotes_def voteKey_def
      computeBestLoc_def zeroCluster_def emptyHitMap_def fdiv_def Let_def)

text \<open>
  C9. The claim: the coverage score lies in the closed interval from 0 to 1 for
  every vote list. The code at a concrete input: a read of length 30 whose whole
  length matches the transcript at positions 0 and 5 (one seed with two
  occurrences, as in a repeat of period 5). Both votes fall into one cluster (gap
  at most 10); the first adds its 30 bases, the second the 5 transcript bases right
  of the first one's right end, although it covers the same 30 bases of the read.
  No subtraction wraps here. The count is 35 for a read of 30 bases and the score
  is 35/30.
\<close>

theorem computeBestChain_score_above_one:
  "map_option (\<lambda>h. (bestHitCount h, bestHitScore h, isForward h))
     (computeBestChain 30 (emptyHitList\<lparr>votes := [mkVote 0 0 30, mkVote 5 0 30]\<rparr>))
     = Some (35, Fin (7 / 6), True) \<and>
   \<not> (7 / 6 :: real) \<le> 1"
  by (simp add: computeBestChain_def emptyHitList_def mkVote_def sortVotes_def voteKey_def
      computeBestLoc_def zeroCluster_def emptyHitMap_def fdiv_def Let_def)

text \<open>
  C10. After \<^verbatim>\<open>computeBestChain\<close> (which always returns) the hit is reported as
  reverse-complement exactly when the best cluster of the reverse-complement votes
  has a strictly larger coverage than the best cluster of the forward votes; for a
  read of positive length this is the same comparison on the two scores. With
  equal best scores, both zero included, the hit is forward.
\<close>

theorem computeBestChain_orientation:
  "\<exists>mf uf mr ur h'.
      strandBest rl (votes h) = Some (mf, uf) \<and> strandBest rl (rcVotes h) = Some (mr, ur) \<and>
      computeBestChain rl h = Some h' \<and>
      (isForward h' = False \<longleftrightarrow> maxClusterCount mf < maxClusterCount mr) \<and>
      (rl \<noteq> 0 \<longrightarrow>
         (isForward h' = False \<longleftrightarrow> dbl_gt (maxClusterScore mr) (maxClusterScore mf)))"
proof -
  obtain mf uf mr ur h' where
    "strandBest rl (votes h) = Some (mf, uf)" "strandBest rl (rcVotes h) = Some (mr, ur)"
    "computeBestChain rl h = Some h'"
    "maxClusterCount mf = strandPeak (votes h)" "maxClusterCount mr = strandPeak (rcVotes h)"
    "maxClusterScore mf = fdiv (strandPeak (votes h)) rl"
    "maxClusterScore mr = fdiv (strandPeak (rcVotes h)) rl"
    "isForward h' = (\<not> strandPeak (votes h) < strandPeak (rcVotes h))"
    using computeBestChain_result [of rl h] by blast
  then show ?thesis by (auto simp: fdiv_gt)
qed

theorem computeBestChain_orientation_witness:
  "(20 :: u32) \<noteq> 0 \<and>
   (\<exists>h'. computeBestChain 20
           (emptyHitList\<lparr>votes := [mkVote 0 0 10], rcVotes := [mkVote 3 0 10]\<rparr>) = Some h' \<and>
         isForward h')"
proof -
  have "strandBest 20 [mkVote 0 0 10] = Some (\<lparr>maxClusterPos = 0, maxClusterCount = 10,
          maxClusterScore = Fin (1 / 2)\<rparr>, True)"
    by (simp add: strandBest_def mkVote_def sortVotes_def voteKey_def
        computeBestLoc_def zeroCluster_def emptyHitMap_def fdiv_def Let_def)
  moreover have "strandBest 20 [mkVote 3 0 10] = Some (\<lparr>maxClusterPos = 3, maxClusterCount = 10,
          maxClusterScore = Fin (1 / 2)\<rparr>, True)"
    by (simp add: strandBest_def mkVote_def sortVotes_def voteKey_def
        computeBestLoc_def zeroCluster_def emptyHitMap_def fdiv_def Let_def)
  ultimately show ?thesis
    using computeBestChain_orientation
            [of 20 "emptyHitList\<lparr>votes := [mkVote 0 0 10], rcVotes := [mkVote 3 0 10]\<rparr>"]
    by (auto simp: emptyHitList_def)
qed

section \<open>Proofs: the hit collector\<close>

lemma u64_id: "0 \<le> n \<Longrightarrow> n < 2 ^ 64 \<Longrightarrow> u64 n = n"
  by (simp add: u64_def)

lemma to_i32_id: "0 \<le> n \<Longrightarrow> n < 2 ^ 31 \<Longrightarrow> to_i32 n = n"
  by (simp add: to_i32_def signed_take_bit_int_eq_self)

lemma occLoop_closed:
  assumes "0 < step" "0 \<le> count" "count \<le> n" "n \<le> mo"
    and below: "\<forall>i. count \<le> i \<and> i < n \<longrightarrow> i * step < sz"
    and stop: "n < mo \<longrightarrow> sz \<le> n * step"
    and rng: "mo * step < 2 ^ 64"
  shows "occLoop sz mo step (count * step) count = map (\<lambda>i. i * step) [count..n - 1]"
  using assms
proof (induction "nat (n - count)" arbitrary: count)
  case 0
  have eq: "count = n" using "0.hyps" "0.prems"(3) by simp
  have k0: "0 \<le> n * step" using "0.prems"(1,2) eq by simp
  have "n * step \<le> mo * step" using "0.prems"(1,4) by (simp add: mult_right_mono)
  then have "n * step < 2 ^ 64" using "0.prems"(7) by linarith
  then have ku: "u64 (n * step) = n * step" using k0 by (simp add: u64_id)
  have "\<not> (u64 (n * step) < sz \<and> n < mo)" using "0.prems"(6) ku by auto
  then show ?case using eq by (subst occLoop.simps) simp
next
  case (Suc m)
  then have lt: "count < n" by simp
  then have kl: "count * step < sz" using Suc.prems by blast
  have k0: "0 \<le> count * step" using Suc.prems by simp
  have "count * step \<le> mo * step" using Suc.prems(1,3,4) by (simp add: mult_right_mono)
  then have "count * step < 2 ^ 64" using Suc.prems(7) by linarith
  then have ku: "u64 (count * step) = count * step" using k0 by (simp add: u64_id)
  have m: "m = nat (n - (count + 1))" using Suc.hyps by linarith
  have IH: "occLoop sz mo step ((count + 1) * step) (count + 1)
              = map (\<lambda>i. i * step) [count + 1..n - 1]"
    using Suc.hyps(1) [OF m] Suc.prems lt by simp
  have unf: "occLoop sz mo step (count * step) count
      = count * step # occLoop sz mo step (count * step + step) (count + 1)"
    using kl ku lt Suc.prems by (subst occLoop.simps) simp
  have "[count..n - 1] = count # [count + 1..n - 1]"
    using lt by (simp add: upto_rec1)
  then show ?case using unf IH by (simp add: algebra_simps)
qed

section \<open>Claims about the hit collector\<close>

text \<open>
  C5, as stated: the collector visits at most \<^verbatim>\<open>maxOcc\<close> occurrences, with step
  equal to the ceiling of \<open>intervalSize / maxOcc\<close>. For an interval of size 5 and
  \<^verbatim>\<open>maxOcc = 2\<close> the ceiling is 3, but the source divides in integers: the step is
  2 and the offsets visited are 0 and 2.
\<close>

theorem sampledOccs_step_not_ceiling:
  "occStep 5 2 = Some 2 \<and> sampledOccs 5 2 = Some [0, 2] \<and>
   (5 + 2 - 1) div 2 = (3 :: int) \<and> (2 :: int) \<noteq> 3"
  by (simp add: occStep_def sampledOccs_def u64_def to_i32_def)

text \<open>
  C5, amended: for a positive \<^verbatim>\<open>maxOcc\<close> and an interval of size below \<open>2 ^ 31\<close>,
  the step is the integer quotient \<open>intervalSize div maxOcc\<close> when the interval is
  larger than \<^verbatim>\<open>maxOcc\<close> and 1 otherwise; the offsets visited are the first
  \<open>min intervalSize maxOcc\<close> multiples of the step, all inside the interval, so at
  most \<^verbatim>\<open>maxOcc\<close> occurrences are visited.
\<close>

theorem sampledOccs_floor_step:
  assumes "0 < mo" "mo < 2 ^ 31" "0 \<le> sz" "sz < 2 ^ 31"
  shows "occStep sz mo = Some (if mo < sz then sz div mo else 1) \<and>
         sampledOccs sz mo =
           Some (map (\<lambda>i. i * (if mo < sz then sz div mo else 1)) [0..min sz mo - 1]) \<and>
         int (length (the (sampledOccs sz mo))) = min sz mo \<and>
         length (the (sampledOccs sz mo)) \<le> nat mo \<and>
         (\<forall>k\<in>set (the (sampledOccs sz mo)). 0 \<le> k \<and> k < sz)"
proof -
  define step where "step = (if mo < sz then sz div mo else 1)"
  have mo64: "u64 mo = mo" using assms by (simp add: u64_id)
  have dpos: "mo < sz \<Longrightarrow> 1 \<le> sz div mo"
    using assms pos_imp_zdiv_pos_iff [of mo sz] by linarith
  have dlt: "sz div mo < 2 ^ 31"
    using assms by (smt (verit) div_by_1 zdiv_mono2)
  have st: "occStep sz mo = Some step"
    using assms mo64 dpos dlt by (auto simp: occStep_def step_def to_i32_id)
  have sp: "0 < step" using dpos by (auto simp: step_def)
  have slt: "step < 2 ^ 31" using dlt by (simp add: step_def)
  have below: "\<forall>i. 0 \<le> i \<and> i < min sz mo \<longrightarrow> i * step < sz"
  proof (intro allI impI)
    fix i assume i: "0 \<le> i \<and> i < min sz mo"
    show "i * step < sz"
    proof (cases "mo < sz")
      case True
      have "i * (sz div mo) \<le> (mo - 1) * (sz div mo)"
        using i True dpos by (intro mult_right_mono) auto
      also have "\<dots> = mo * (sz div mo) - sz div mo" by (simp add: algebra_simps)
      also have "\<dots> < sz" using dpos [OF True] assms
        by (smt (verit) mult.commute div_mult_self1_is_m minus_mod_eq_mult_div mod_less_eq_dividend pos_mod_sign)
      finally show ?thesis using True by (simp add: step_def)
    next
      case False
      then show ?thesis using i by (simp add: step_def)
    qed
  qed
  have stop: "min sz mo < mo \<longrightarrow> sz \<le> min sz mo * step"
    by (auto simp: step_def min_def)
  have "mo * step < 2 ^ 31 * 2 ^ 31"
    using assms sp slt by (intro mult_strict_mono) auto
  then have rng: "mo * step < 2 ^ 64" by simp
  have n0: "0 \<le> min sz mo" "min sz mo \<le> mo" using assms by auto
  have "occLoop sz mo step (0 * step) 0 = map (\<lambda>i. i * step) [0..min sz mo - 1]"
    by (rule occLoop_closed [OF sp _ n0(1) n0(2) below stop rng]) simp
  then have loop: "occLoop sz mo step 0 0 = map (\<lambda>i. i * step) [0..min sz mo - 1]"
    by simp
  have so: "sampledOccs sz mo = Some (map (\<lambda>i. i * step) [0..min sz mo - 1])"
    using st loop by (simp add: sampledOccs_def)
  have len: "int (length (the (sampledOccs sz mo))) = min sz mo"
    using so n0 by simp
  have mem: "\<forall>k\<in>set (the (sampledOccs sz mo)). 0 \<le> k \<and> k < sz"
    using so below sp by auto
  have le: "length (the (sampledOccs sz mo)) \<le> nat mo"
    using len n0(2) by linarith
  from st so len le mem show ?thesis
    unfolding step_def by (intro conjI)
qed

theorem sampledOccs_floor_step_witness:
  "(0 :: int) < 3 \<and> (3 :: int) < 2 ^ 31 \<and> (0 :: int) \<le> 10 \<and> (10 :: int) < 2 ^ 31 \<and>
   occStep 10 3 = Some 3 \<and> sampledOccs 10 3 = Some [0, 3, 6] \<and>
   length (the (sampledOccs 10 3)) \<le> 3"
  using sampledOccs_floor_step [of 3 10] by (simp add: upto.simps)

text \<open>
  C6. The claim: a seed occurrence that straddles two transcripts gives no vote
  when \<^verbatim>\<open>splitSpanningSeeds\<close> is off; when it is on, the longer side receives
  exactly one vote, and the occurrence is dropped when the longer side is shorter
  than \<^verbatim>\<open>minSeedLen\<close>. The code on the index \<open>idx2\<close>, for a seed of length 25
  that covers positions 14 to 38 (6 bases in \<open>T0\<close>, 19 in \<open>T1\<close>), with
  \<^verbatim>\<open>minSeedLen = 19\<close>: with splitting off there is no vote; the forward occurrence
  (suffix-array position 14) votes once, for \<open>T1\<close> with length 19; the
  reverse-strand occurrence of the same positions (suffix-array position 61) is
  dropped, because the reverse branch takes \<^verbatim>\<open>endPos - offset\<close>, the index of the
  seed's last base in \<open>T1\<close> (18), for the length of that side. For the same reason
  the reverse-strand occurrence of positions 2 to 26 (18 bases in \<open>T0\<close>, 7 in
  \<open>T1\<close>; suffix-array position 73) is not dropped: it votes for \<open>T0\<close> with length
  19.
\<close>

theorem occVote_reverse_spanning_dropped:
  "bns_depos idx2 61 = (38, True) \<and> bns_depos idx2 (61 + 25 - 1) = (14, True) \<and>
   sideLen idx2 0 14 38 = 6 \<and> sideLen idx2 1 14 38 = 19 \<and>
   occVote idx2 \<lparr>max_occ = 200, min_seed_len = 19\<rparr> False 0 25 25 14 = None \<and>
   occVote idx2 \<lparr>max_occ = 200, min_seed_len = 19\<rparr> False 0 25 25 61 = None \<and>
   occVote idx2 \<lparr>max_occ = 200, min_seed_len = 19\<rparr> True 0 25 25 14 =
     Some \<lparr>refID = 1, isRev = False, hitLoc = 0, queryStart = 6, slen = 19, rlen = 25\<rparr> \<and>
   occVote idx2 \<lparr>max_occ = 200, min_seed_len = 19\<rparr> True 0 25 25 61 = None \<and>
   bns_depos idx2 73 = (26, True) \<and> bns_depos idx2 (73 + 25 - 1) = (2, True) \<and>
   sideLen idx2 0 2 26 = 18 \<and> sideLen idx2 1 2 26 = 7 \<and>
   occVote idx2 \<lparr>max_occ = 200, min_seed_len = 19\<rparr> True 0 25 25 73 =
     Some \<lparr>refID = 0, isRev = True, hitLoc = 14, queryStart = 6, slen = 19, rlen = 19\<rparr>"
  by (simp add: occVote_def idx2_def sideLen_def u64_def Let_def upto.simps)

section \<open>Proofs: the mini-batch EM worker\<close>

lemma sameMR_refl: "sameMR ts ts"
  by (simp add: sameMR_def)

lemma sameMR_update:
  assumes "sameMR ts ts'" "mass t = mass (ts' ! i)" "RefLength t = RefLength (ts' ! i)"
  shows "sameMR ts (ts'[i := t])"
proof (cases "i < length ts'")
  case True
  then show ?thesis using assms by (auto simp: sameMR_def nth_list_update)
next
  case False
  then show ?thesis using assms by (simp add: sameMR_def)
qed

lemma alnLogProb_cong:
  "mass t = mass t' \<Longrightarrow> RefLength t = RefLength t' \<Longrightarrow> alnLogProb P fld t a = alnLogProb P fld t' a"
  by (simp add: alnLogProb_def refLengthOf_def)

lemma logAdd_LOG_0_right: "logAdd x LOG_0 = x"
  by (cases x) simp_all

lemma eStepAln_result:
  assumes "sameMR ts (accTranscripts acc)" "transcriptID aln < length ts"
    and "eStepAln P fld f aln acc = (aln', acc2)"
  shows "aln' = aln\<lparr>logProb := eLogProb P fld ts aln\<rparr>"
    and "sameMR ts (accTranscripts acc2)"
    and "sumOfAlignProbs acc2 = logAdd (sumOfAlignProbs acc) (eLogProb P fld ts aln)"
    and "transcriptUnique acc2 = (transcriptUnique acc \<and> transcriptID aln = f)"
proof -
  define t where "t = accTranscripts acc ! transcriptID aln"
  have tm: "mass t = mass (ts ! transcriptID aln)" "RefLength t = RefLength (ts ! transcriptID aln)"
    using assms(1,2) by (simp_all add: sameMR_def t_def)
  have el: "eLogProb P fld ts aln = (if mass t = LOG_0 then LOG_0 else alnLogProb P fld t aln)"
    using tm alnLogProb_cong [OF tm] by (simp add: eLogProb_def)
  have up: "sameMR ts ((accTranscripts acc)[transcriptID aln := addTotalCount 1 t])"
    by (rule sameMR_update) (use assms(1) in \<open>simp_all add: addTotalCount_def t_def\<close>)
  show "aln' = aln\<lparr>logProb := eLogProb P fld ts aln\<rparr>"
    using assms(3) el by (auto simp: eStepAln_def Let_def t_def split: if_splits)
  show "sameMR ts (accTranscripts acc2)"
    using assms(1,3) up by (auto simp: eStepAln_def Let_def t_def split: if_splits)
  show "sumOfAlignProbs acc2 = logAdd (sumOfAlignProbs acc) (eLogProb P fld ts aln)"
    using assms(3) el
    by (auto simp: eStepAln_def Let_def t_def logAdd_LOG_0_right split: if_splits)
  show "transcriptUnique acc2 = (transcriptUnique acc \<and> transcriptID aln = f)"
    using assms(3) by (auto simp: eStepAln_def Let_def split: if_splits)
qed

lemma eStepAlns_result:
  assumes "sameMR ts (accTranscripts acc)" "\<forall>a\<in>set alns. transcriptID a < length ts"
  shows "\<exists>acc'. eStepAlns P fld f alns acc =
            Some (map (\<lambda>a. a\<lparr>logProb := eLogProb P fld ts a\<rparr>) alns, acc') \<and>
          sameMR ts (accTranscripts acc') \<and>
          sumOfAlignProbs acc' =
            foldl logAdd (sumOfAlignProbs acc) (map (eLogProb P fld ts) alns) \<and>
          transcriptUnique acc' = (transcriptUnique acc \<and> (\<forall>a\<in>set alns. transcriptID a = f))"
  using assms
proof (induction alns arbitrary: acc)
  case Nil
  then show ?case by simp
next
  case (Cons aln alns)
  have rng: "transcriptID aln < length ts" using Cons.prems by simp
  have len: "length (accTranscripts acc) = length ts" using Cons.prems by (simp add: sameMR_def)
  obtain aln' acc2 where st: "eStepAln P fld f aln acc = (aln', acc2)"
    by (cases "eStepAln P fld f aln acc")
  note r = eStepAln_result [OF Cons.prems(1) rng st]
  from Cons.IH [OF r(2)] Cons.prems obtain acc' where
    run: "eStepAlns P fld f alns acc2 = Some (map (\<lambda>a. a\<lparr>logProb := eLogProb P fld ts a\<rparr>) alns, acc')"
    and s: "sameMR ts (accTranscripts acc')"
    and sm: "sumOfAlignProbs acc' = foldl logAdd (sumOfAlignProbs acc2) (map (eLogProb P fld ts) alns)"
    and u: "transcriptUnique acc' = (transcriptUnique acc2 \<and> (\<forall>a\<in>set alns. transcriptID a = f))"
    by auto
  have "eStepAlns P fld f (aln # alns) acc =
          Some (map (\<lambda>a. a\<lparr>logProb := eLogProb P fld ts a\<rparr>) (aln # alns), acc')"
    using rng len st run r(1) by simp
  moreover have "sumOfAlignProbs acc' =
      foldl logAdd (sumOfAlignProbs acc) (map (eLogProb P fld ts) (aln # alns))"
    using sm r(3) by simp
  moreover have "transcriptUnique acc' =
      (transcriptUnique acc \<and> (\<forall>a\<in>set (aln # alns). transcriptID a = f))"
    using u r(4) by auto
  ultimately show ?case using s by blast
qed

lemma expL_nonneg: "0 \<le> expL x"
  by (cases x) simp_all

lemma expL_eq_0_iff: "expL x = 0 \<longleftrightarrow> x = LOG_0"
  by (cases x) simp_all

lemma expL_logAdd: "expL (logAdd x y) = expL x + expL y"
proof (cases x)
  case LOG_0
  then show ?thesis by simp
next
  case (LogVal a)
  then show ?thesis
  proof (cases y)
    case LOG_0
    then show ?thesis using LogVal by simp
  next
    case (LogVal b)
    have "0 < exp a + exp b" by (simp add: add_pos_pos)
    then show ?thesis using \<open>x = LogVal a\<close> LogVal by simp
  qed
qed

lemma expL_foldl_logAdd: "expL (foldl logAdd acc xs) = expL acc + sum_list (map expL xs)"
  by (induction xs arbitrary: acc) (simp_all add: expL_logAdd)

lemma foldl_logAdd_all_LOG_0: "\<forall>x\<in>set xs. x = LOG_0 \<Longrightarrow> foldl logAdd acc xs = acc"
  by (induction xs arbitrary: acc) (simp_all add: logAdd_LOG_0_right)

lemma sum_expL_nonneg: "0 \<le> sum_list (map expL xs)"
  by (induction xs) (simp_all add: expL_nonneg)

lemma sum_expL_zero: "sum_list (map expL xs) = 0 \<Longrightarrow> \<forall>x\<in>set xs. x = LOG_0"
proof (induction xs)
  case Nil
  then show ?case by simp
next
  case (Cons x xs)
  have "expL x + sum_list (map expL xs) = 0" using Cons.prems by simp
  then have "expL x = 0" "sum_list (map expL xs) = 0"
    using expL_nonneg [of x] sum_expL_nonneg [of xs] by linarith+
  then show ?case using Cons.IH by (simp add: expL_eq_0_iff)
qed

lemma foldl_logAdd_LOG_0_iff: "foldl logAdd LOG_0 xs = LOG_0 \<longleftrightarrow> (\<forall>x\<in>set xs. x = LOG_0)"
proof
  assume "foldl logAdd LOG_0 xs = LOG_0"
  then have "expL (foldl logAdd LOG_0 xs) = 0" by simp
  then have "sum_list (map expL xs) = 0" by (simp add: expL_foldl_logAdd)
  then show "\<forall>x\<in>set xs. x = LOG_0" by (rule sum_expL_zero)
next
  assume "\<forall>x\<in>set xs. x = LOG_0"
  then show "foldl logAdd LOG_0 xs = LOG_0" by (rule foldl_logAdd_all_LOG_0)
qed

lemma expL_lsub: "expL (lsub x s) = expL x / exp s"
  by (cases x) (simp_all add: exp_diff)

lemma normalizeAlns_result:
  "\<exists>added. normalizeAlns P b s alns fld n = (map (normAln s) alns, fld @ added, n + length alns) \<and>
     (b \<longrightarrow> added = []) \<and>
     (\<forall>e\<in>set added. \<not> b \<and> 0 < fst e \<and> snd e = logForgettingMass P \<and>
        (\<exists>i<length alns. fst e = fragLength (alns ! i) \<and>
           uni P (n + i) < expL (logProb (normAln s (alns ! i)))))"
proof (induction alns arbitrary: fld n)
  case Nil
  then show ?case by simp
next
  case (Cons a alns)
  define a' where "a' = normAln s a"
  define fld1 where "fld1 = sampleFLD P b a' (uni P n) fld"
  obtain added where
    run: "normalizeAlns P b s alns fld1 (n + 1) = (map (normAln s) alns, fld1 @ added, n + 1 + length alns)"
    and bb: "b \<longrightarrow> added = []"
    and each: "\<forall>e\<in>set added. \<not> b \<and> 0 < fst e \<and> snd e = logForgettingMass P \<and>
        (\<exists>i<length alns. fst e = fragLength (alns ! i) \<and>
           uni P (n + 1 + i) < expL (logProb (normAln s (alns ! i))))"
    using Cons.IH [of fld1 "n + 1"] by blast
  define first where "first = (if \<not> b \<and> uni P n < expL (logProb a') \<and> 0 < fragLength a'
                                then [(fragLength a', logForgettingMass P)] else [])"
  have f1: "fld1 = fld @ first"
    by (simp add: fld1_def first_def sampleFLD_def)
  have r: "normalizeAlns P b s (a # alns) fld n =
             (map (normAln s) (a # alns), fld @ (first @ added), n + length (a # alns))"
    using run by (simp add: Let_def normAln_def a'_def fld1_def f1 [unfolded fld1_def a'_def normAln_def])
  have fl: "fragLength a' = fragLength a" by (simp add: a'_def normAln_def)
  have e1: "\<forall>e\<in>set first. \<not> b \<and> 0 < fst e \<and> snd e = logForgettingMass P \<and>
        (\<exists>i<length (a # alns). fst e = fragLength ((a # alns) ! i) \<and>
           uni P (n + i) < expL (logProb (normAln s ((a # alns) ! i))))"
  proof
    fix e assume "e \<in> set first"
    then have c: "\<not> b" "uni P n < expL (logProb a')" "0 < fragLength a'"
      and e: "e = (fragLength a', logForgettingMass P)"
      by (auto simp: first_def split: if_splits)
    have e': "0 < fst e" "snd e = logForgettingMass P" using c e by simp_all
    have "0 < length (a # alns) \<and> fst e = fragLength ((a # alns) ! 0) \<and>
           uni P (n + 0) < expL (logProb (normAln s ((a # alns) ! 0)))"
      using c e fl by (simp add: a'_def)
    with e' c(1) show "\<not> b \<and> 0 < fst e \<and> snd e = logForgettingMass P \<and>
        (\<exists>i<length (a # alns). fst e = fragLength ((a # alns) ! i) \<and>
           uni P (n + i) < expL (logProb (normAln s ((a # alns) ! i))))"
      by blast
  qed
  have e2: "\<forall>e\<in>set added. \<not> b \<and> 0 < fst e \<and> snd e = logForgettingMass P \<and>
        (\<exists>i<length (a # alns). fst e = fragLength ((a # alns) ! i) \<and>
           uni P (n + i) < expL (logProb (normAln s ((a # alns) ! i))))"
  proof
    fix e assume "e \<in> set added"
    with each obtain i where
      c: "\<not> b" "0 < fst e" "snd e = logForgettingMass P"
      and i: "i < length alns" "fst e = fragLength (alns ! i)"
        "uni P (n + 1 + i) < expL (logProb (normAln s (alns ! i)))"
      by blast
    have "Suc i < length (a # alns) \<and> fst e = fragLength ((a # alns) ! Suc i) \<and>
           uni P (n + Suc i) < expL (logProb (normAln s ((a # alns) ! Suc i)))"
      using i by simp
    then show "\<not> b \<and> 0 < fst e \<and> snd e = logForgettingMass P \<and>
        (\<exists>i<length (a # alns). fst e = fragLength ((a # alns) ! i) \<and>
           uni P (n + i) < expL (logProb (normAln s ((a # alns) ! i))))"
      using c by blast
  qed
  have "b \<longrightarrow> first @ added = []" using bb by (simp add: first_def)
  moreover have "\<forall>e\<in>set (first @ added). \<not> b \<and> 0 < fst e \<and> snd e = logForgettingMass P \<and>
        (\<exists>i<length (a # alns). fst e = fragLength ((a # alns) ! i) \<and>
           uni P (n + i) < expL (logProb (normAln s ((a # alns) ! i))))"
    using e1 e2 by auto
  ultimately show ?case using r by blast
qed

lemma sum_expL_normalized:
  assumes "foldl logAdd LOG_0 (map logProb alns) = LogVal s"
  shows "(\<Sum>a\<leftarrow>map (normAln s) alns. expL (logProb a)) = 1"
proof -
  have "expL (foldl logAdd LOG_0 (map logProb alns)) = exp s" using assms by simp
  then have tot: "sum_list (map expL (map logProb alns)) = exp s"
    by (simp add: expL_foldl_logAdd)
  have "(\<Sum>a\<leftarrow>map (normAln s) alns. expL (logProb a))
          = (\<Sum>a\<leftarrow>alns. expL (logProb a) / exp s)"
    by (simp add: normAln_def expL_lsub comp_def)
  also have "\<dots> = (\<Sum>a\<leftarrow>alns. expL (logProb a)) / exp s"
    by (induction alns) (simp_all add: add_divide_distrib)
  also have "\<dots> = 1" using tot by (simp add: comp_def)
  finally show ?thesis .
qed

lemma sameMR_trans: "sameMR a b \<Longrightarrow> sameMR b c \<Longrightarrow> sameMR a c"
  by (simp add: sameMR_def)

lemma initAcc_simps:
  "sumOfAlignProbs (initAcc st) = LOG_0" "transcriptUnique (initAcc st) = True"
  "accTranscripts (initAcc st) = transcripts st"
  by (simp_all add: initAcc_def)

lemma clusterUpdate_frame:
  "fragLengthDist (clusterUpdate P u f alns st) = fragLengthDist st"
  "draws (clusterUpdate P u f alns st) = draws st"
  "burnedIn (clusterUpdate P u f alns st) = burnedIn st"
  "numAssignedFragments (clusterUpdate P u f alns st) = numAssignedFragments st"
  "sameMR (transcripts st) (transcripts (clusterUpdate P u f alns st))"
  by (auto simp: clusterUpdate_def sameMR_refl addUniqueCount_def intro!: sameMR_update)

lemma processGroup_cases:
  assumes ne: "g \<noteq> []" and rng: "\<forall>a\<in>set g. transcriptID a < length (transcripts st)"
  shows "\<exists>acc. eStepAlns P (fragLengthDist st) (transcriptID (hd g)) g (initAcc st)
                 = Some (eGroup P st g, acc) \<and>
     sumOfAlignProbs acc = foldl logAdd LOG_0 (map logProb (eGroup P st g)) \<and>
     sameMR (transcripts st) (accTranscripts acc) \<and>
     processGroup P g (st, n) =
       Some (groupOutcome P st g n acc)"
proof -
  have s0: "sameMR (transcripts st) (accTranscripts (initAcc st))"
    by (simp add: initAcc_simps sameMR_refl)
  from eStepAlns_result [OF s0 rng, of P "fragLengthDist st" "transcriptID (hd g)"]
  obtain acc where
    run: "eStepAlns P (fragLengthDist st) (transcriptID (hd g)) g (initAcc st)
            = Some (eGroup P st g, acc)"
    and s: "sameMR (transcripts st) (accTranscripts acc)"
    and sm: "sumOfAlignProbs acc = foldl logAdd (sumOfAlignProbs (initAcc st))
               (map (eLogProb P (fragLengthDist st) (transcripts st)) g)"
    by (auto simp: eGroup_def)
  have sm': "sumOfAlignProbs acc = foldl logAdd LOG_0 (map logProb (eGroup P st g))"
    using sm by (simp add: initAcc_simps eGroup_def comp_def)
  obtain a as where g: "g = a # as" using ne by (cases g) auto
  have "processGroup P g (st, n) =
       Some (groupOutcome P st g n acc)"
    using run unfolding g
    by (simp add: processGroup_def groupOutcome_def Let_def split: logd.splits prod.splits)
  then show ?thesis using run s sm' by blast
qed

lemma processGroup_summary:
  assumes rng: "\<forall>a\<in>set g. transcriptID a < length (transcripts st)"
  shows "\<exists>g' st' n' added. processGroup P g (st, n) = Some (g', st', n') \<and>
      length g' = length g \<and> map transcriptID g' = map transcriptID g \<and>
      sameMR (transcripts st) (transcripts st') \<and>
      burnedIn st' = burnedIn st \<and> numAssignedFragments st' = numAssignedFragments st \<and>
      fragLengthDist st' = fragLengthDist st @ added \<and> (burnedIn st \<longrightarrow> added = []) \<and>
      draws st \<le> draws st' \<and>
      (\<forall>e\<in>set added. \<not> burnedIn st \<and> 0 < fst e \<and> snd e = logForgettingMass P \<and>
         (\<exists>a\<in>set g'. \<exists>k. draws st \<le> k \<and> k < draws st' \<and> fragLength a = fst e \<and>
            uni P k < expL (logProb a)))"
proof (cases "g = []")
  case True
  then show ?thesis by (simp add: processGroup_def sameMR_refl)
next
  case False
  from processGroup_cases [OF False rng, of P n] obtain acc where
    s: "sameMR (transcripts st) (accTranscripts acc)"
    and pg: "processGroup P g (st, n) =
       Some (groupOutcome P st g n acc)"
    by blast
  have tids: "map transcriptID (eGroup P st g) = map transcriptID g"
    by (simp add: eGroup_def comp_def)
  show ?thesis
  proof (cases "sumOfAlignProbs acc")
    case LOG_0
    then have "processGroup P g (st, n) = Some (eGroup P st g,
                 st\<lparr>transcripts := accTranscripts acc, libTypeCounts := accLibTypeCounts acc\<rparr>, n)"
      using pg by (simp add: groupOutcome_def)
    then show ?thesis using s tids
      by (intro exI [of _ "eGroup P st g"] exI [of _ "[]"] exI) (auto simp: eGroup_def)
  next
    case (LogVal sv)
    from normalizeAlns_result [of P "burnedIn st" sv "eGroup P st g" "fragLengthDist st" "draws st"]
    obtain added where
      nr: "normalizeAlns P (burnedIn st) sv (eGroup P st g) (fragLengthDist st) (draws st)
             = (map (normAln sv) (eGroup P st g), fragLengthDist st @ added,
                draws st + length (eGroup P st g))"
      and bb: "burnedIn st \<longrightarrow> added = []"
      and each: "\<forall>e\<in>set added. \<not> burnedIn st \<and> 0 < fst e \<and> snd e = logForgettingMass P \<and>
        (\<exists>i<length (eGroup P st g). fst e = fragLength (eGroup P st g ! i) \<and>
           uni P (draws st + i) < expL (logProb (normAln sv (eGroup P st g ! i))))"
      by blast
    define g' where "g' = map (normAln sv) (eGroup P st g)"
    define st' where "st' = clusterUpdate P (transcriptUnique acc) (transcriptID (hd g)) g'
                         (st\<lparr>transcripts := accTranscripts acc,
                             libTypeCounts := accLibTypeCounts acc,
                             fragLengthDist := fragLengthDist st @ added,
                             draws := draws st + length (eGroup P st g)\<rparr>)"
    have res: "processGroup P g (st, n) = Some (g', st', n + 1)"
      using pg LogVal nr by (simp add: g'_def st'_def groupOutcome_def)
    have fr: "fragLengthDist st' = fragLengthDist st @ added"
      "draws st' = draws st + length g" "burnedIn st' = burnedIn st"
      "numAssignedFragments st' = numAssignedFragments st"
      by (simp_all add: st'_def clusterUpdate_frame eGroup_def)
    have "sameMR (accTranscripts acc) (transcripts st')"
      using clusterUpdate_frame(5) [of "st\<lparr>transcripts := accTranscripts acc,
                             libTypeCounts := accLibTypeCounts acc,
                             fragLengthDist := fragLengthDist st @ added,
                             draws := draws st + length (eGroup P st g)\<rparr>"
               P "transcriptUnique acc" "transcriptID (hd g)" g']
      by (simp add: st'_def)
    then have sm: "sameMR (transcripts st) (transcripts st')" using s by (rule sameMR_trans [rotated])
    have tg: "map transcriptID g' = map transcriptID g" "length g' = length g"
      using tids by (simp_all add: g'_def normAln_def comp_def eGroup_def)
    have ev: "\<forall>e\<in>set added. \<not> burnedIn st \<and> 0 < fst e \<and> snd e = logForgettingMass P \<and>
         (\<exists>a\<in>set g'. \<exists>k. draws st \<le> k \<and> k < draws st' \<and> fragLength a = fst e \<and>
            uni P k < expL (logProb a))"
    proof
      fix e assume "e \<in> set added"
      with each obtain i where
        c: "\<not> burnedIn st" "0 < fst e" "snd e = logForgettingMass P"
        and i: "i < length (eGroup P st g)" "fst e = fragLength (eGroup P st g ! i)"
          "uni P (draws st + i) < expL (logProb (normAln sv (eGroup P st g ! i)))"
        by blast
      have m: "g' ! i \<in> set g'" using i(1) by (simp add: g'_def)
      have gi: "g' ! i = normAln sv (eGroup P st g ! i)" using i(1) by (simp add: g'_def)
      have "draws st \<le> draws st + i \<and> draws st + i < draws st' \<and>
            fragLength (g' ! i) = fst e \<and> uni P (draws st + i) < expL (logProb (g' ! i))"
        using i fr(2) gi by (simp add: normAln_def eGroup_def)
      with m c show "\<not> burnedIn st \<and> 0 < fst e \<and> snd e = logForgettingMass P \<and>
         (\<exists>a\<in>set g'. \<exists>k. draws st \<le> k \<and> k < draws st' \<and> fragLength a = fst e \<and>
            uni P k < expL (logProb a))"
        by blast
    qed
    show ?thesis using res tg sm fr bb ev by (intro exI [of _ g'] exI [of _ st'] exI [of _ "n + 1"] exI [of _ added]) simp
  qed
qed

lemma processGroups_summary:
  assumes "\<forall>g\<in>set gs. \<forall>a\<in>set g. transcriptID a < length (transcripts st)"
  shows "\<exists>gs' st' n' added. processGroups P gs (st, n) = Some (gs', st', n') \<and>
      length gs' = length gs \<and>
      sameMR (transcripts st) (transcripts st') \<and>
      burnedIn st' = burnedIn st \<and> numAssignedFragments st' = numAssignedFragments st \<and>
      fragLengthDist st' = fragLengthDist st @ added \<and> (burnedIn st \<longrightarrow> added = []) \<and>
      draws st \<le> draws st' \<and>
      (\<forall>e\<in>set added. fldEvidence P st st' gs' e)"
  using assms
proof (induction gs arbitrary: st n)
  case Nil
  then show ?case by (simp add: sameMR_refl)
next
  case (Cons g gs)
  have rg: "\<forall>a\<in>set g. transcriptID a < length (transcripts st)" using Cons.prems by simp
  from processGroup_summary [OF rg, of P n] obtain g' st1 n1 add1 where
    pg: "processGroup P g (st, n) = Some (g', st1, n1)"
    and s1: "sameMR (transcripts st) (transcripts st1)"
    and b1: "burnedIn st1 = burnedIn st" and a1: "numAssignedFragments st1 = numAssignedFragments st"
    and f1: "fragLengthDist st1 = fragLengthDist st @ add1" and bb1: "burnedIn st \<longrightarrow> add1 = []"
    and d1: "draws st \<le> draws st1"
    and e1: "\<forall>e\<in>set add1. \<not> burnedIn st \<and> 0 < fst e \<and> snd e = logForgettingMass P \<and>
         (\<exists>a\<in>set g'. \<exists>k. draws st \<le> k \<and> k < draws st1 \<and> fragLength a = fst e \<and>
            uni P k < expL (logProb a))"
    by blast
  have len1: "length (transcripts st1) = length (transcripts st)" using s1 by (simp add: sameMR_def)
  have rgs: "\<forall>g\<in>set gs. \<forall>a\<in>set g. transcriptID a < length (transcripts st1)"
    using Cons.prems len1 by simp
  from Cons.IH [OF rgs, of n1] obtain gs' st2 n2 add2 where
    pgs: "processGroups P gs (st1, n1) = Some (gs', st2, n2)"
    and l2: "length gs' = length gs"
    and s2: "sameMR (transcripts st1) (transcripts st2)"
    and b2: "burnedIn st2 = burnedIn st1" and a2: "numAssignedFragments st2 = numAssignedFragments st1"
    and f2: "fragLengthDist st2 = fragLengthDist st1 @ add2" and bb2: "burnedIn st1 \<longrightarrow> add2 = []"
    and d2: "draws st1 \<le> draws st2"
    and e2: "\<forall>e\<in>set add2. fldEvidence P st1 st2 gs' e"
    by blast
  have res: "processGroups P (g # gs) (st, n) = Some (g' # gs', st2, n2)"
    using pg pgs by simp
  have ev: "\<forall>e\<in>set (add1 @ add2). fldEvidence P st st2 (g' # gs') e"
  proof
    fix e assume "e \<in> set (add1 @ add2)"
    then consider "e \<in> set add1" | "e \<in> set add2" by auto
    then show "fldEvidence P st st2 (g' # gs') e"
    proof cases
      case 1
      with e1 obtain a k where "\<not> burnedIn st" "0 < fst e" "snd e = logForgettingMass P"
        "a \<in> set g'" "draws st \<le> k" "k < draws st1" "fragLength a = fst e"
        "uni P k < expL (logProb a)" by blast
      then show ?thesis using d2 unfolding fldEvidence_def
        by (intro conjI bexI [of _ g'] bexI [of _ a] exI [of _ k]) auto
    next
      case 2
      with e2 obtain h a k where "\<not> burnedIn st1" "0 < fst e" "snd e = logForgettingMass P"
        "h \<in> set gs'" "a \<in> set h" "draws st1 \<le> k" "k < draws st2" "fragLength a = fst e"
        "uni P k < expL (logProb a)" unfolding fldEvidence_def by blast
      then show ?thesis using d1 b1 unfolding fldEvidence_def
        by (intro conjI bexI [of _ h] bexI [of _ a] exI [of _ k]) auto
    qed
  qed
  have "sameMR (transcripts st) (transcripts st2)" using s1 s2 by (rule sameMR_trans)
  moreover have "fragLengthDist st2 = fragLengthDist st @ (add1 @ add2)" using f1 f2 by simp
  moreover have "burnedIn st \<longrightarrow> add1 @ add2 = []" using bb1 bb2 b1 by simp
  moreover have "draws st \<le> draws st2" using d1 d2 by simp
  ultimately show ?case using res l2 b1 b2 a1 a2 ev
    by (intro exI [of _ "g' # gs'"] exI [of _ st2] exI [of _ n2] exI [of _ "add1 @ add2"]) simp
qed

lemma length_mStep: "length (mStep lfm alns ts) = length ts"
proof -
  have "length (foldl (\<lambda>ts' tid. ts'[tid := f ts' tid]) ts ks) = length ts" for f ks
    by (induction ks arbitrary: ts) simp_all
  then show ?thesis by (simp add: mStep_def)
qed

lemma processMiniBatch_summary:
  assumes "\<forall>g\<in>set batch. \<forall>a\<in>set g. transcriptID a < length (transcripts st)"
  shows "\<exists>batch' st' added. processMiniBatch P batch st = Some (batch', st') \<and>
      length (transcripts st') = length (transcripts st) \<and>
      fragLengthDist st' = fragLengthDist st @ added \<and> (burnedIn st \<longrightarrow> added = []) \<and>
      (\<forall>e\<in>set added. fldEvidence P st st' batch' e) \<and>
      burnedIn st' = (burnedIn st \<or> numBurninFrags \<le> numAssignedFragments st')"
proof -
  from processGroups_summary [OF assms, of P 0] obtain gs' st1 n1 added where
    pg: "processGroups P batch (st, 0) = Some (gs', st1, n1)"
    and s1: "sameMR (transcripts st) (transcripts st1)"
    and b1: "burnedIn st1 = burnedIn st"
    and f1: "fragLengthDist st1 = fragLengthDist st @ added" and bb1: "burnedIn st \<longrightarrow> added = []"
    and e1: "\<forall>e\<in>set added. fldEvidence P st st1 gs' e"
    by blast
  define st2 where "st2 = st1\<lparr>transcripts := mStep (logForgettingMass P) (concat gs') (transcripts st1)\<rparr>"
  define st3 where "st3 = st2\<lparr>numAssignedFragments := numAssignedFragments st2 + n1\<rparr>"
  define st4 where "st4 = (if numBurninFrags \<le> numAssignedFragments st3 \<and> \<not> burnedIn st3
                      then st3\<lparr>burnedIn := True\<rparr> else st3)"
  have res: "processMiniBatch P batch st = Some (gs', st4)"
    using pg by (simp add: processMiniBatch_def Let_def st2_def st3_def st4_def)
  have fr: "fragLengthDist st4 = fragLengthDist st1" "draws st4 = draws st1"
    "numAssignedFragments st4 = numAssignedFragments st3"
    "burnedIn st3 = burnedIn st1"
    "length (transcripts st4) = length (transcripts st1)"
    by (simp_all add: st4_def st3_def st2_def length_mStep)
  have bi: "burnedIn st4 = (burnedIn st \<or> numBurninFrags \<le> numAssignedFragments st4)"
    using fr(3,4) b1 by (auto simp: st4_def)
  have ev: "\<forall>e\<in>set added. fldEvidence P st st4 gs' e"
    using e1 fr(2) by (simp add: fldEvidence_def)
  have l4: "length (transcripts st4) = length (transcripts st)"
    using fr(5) s1 by (simp add: sameMR_def)
  have f4: "fragLengthDist st4 = fragLengthDist st @ added" using fr(1) f1 by simp
  show ?thesis using res l4 f4 bb1 ev bi
    by (intro exI [of _ gs'] exI [of _ st4] exI [of _ added]) simp
qed

lemma runBatches_burned:
  assumes "burnedIn st"
    and "\<forall>Qb\<in>set rest. \<forall>g\<in>set (snd Qb). \<forall>a\<in>set g. transcriptID a < length (transcripts st)"
  shows "\<exists>st'. runBatches rest st = Some st' \<and> burnedIn st' \<and>
           fragLengthDist st' = fragLengthDist st"
  using assms
proof (induction rest arbitrary: st)
  case Nil
  then show ?case by simp
next
  case (Cons Qb rest)
  obtain Q b where qb: "Qb = (Q, b)" by (cases Qb)
  have rb: "\<forall>g\<in>set b. \<forall>a\<in>set g. transcriptID a < length (transcripts st)"
    using Cons.prems(2) qb by simp
  from processMiniBatch_summary [OF rb, of Q] obtain b' st1 added where
    pm: "processMiniBatch Q b st = Some (b', st1)"
    and l1: "length (transcripts st1) = length (transcripts st)"
    and f1: "fragLengthDist st1 = fragLengthDist st @ added" and bb: "burnedIn st \<longrightarrow> added = []"
    and bi: "burnedIn st1 = (burnedIn st \<or> numBurninFrags \<le> numAssignedFragments st1)"
    by blast
  have b1: "burnedIn st1" using bi Cons.prems(1) by simp
  have r1: "\<forall>Qb\<in>set rest. \<forall>g\<in>set (snd Qb). \<forall>a\<in>set g. transcriptID a < length (transcripts st1)"
    using Cons.prems(2) l1 by simp
  from Cons.IH [OF b1 r1] obtain st' where
    "runBatches rest st1 = Some st'" "burnedIn st'" "fragLengthDist st' = fragLengthDist st1"
    by blast
  then show ?case using pm f1 bb Cons.prems(1) qb by simp
qed

lemma foldl_upd_pointwise:
  assumes "distinct ks"
  shows "foldl (\<lambda>ts' k. ts'[k := F k (ts' ! k)]) ts ks
           = map (\<lambda>i. if i \<in> set ks then F i (ts ! i) else ts ! i) [0..<length ts]"
  using assms
proof (induction ks arbitrary: ts)
  case Nil
  then show ?case by (simp add: map_nth)
next
  case (Cons k ks)
  define ts1 where "ts1 = ts[k := F k (ts ! k)]"
  have d: "distinct ks" "k \<notin> set ks" using Cons.prems by simp_all
  have "foldl (\<lambda>ts' k. ts'[k := F k (ts' ! k)]) ts (k # ks)
          = map (\<lambda>i. if i \<in> set ks then F i (ts1 ! i) else ts1 ! i) [0..<length ts]"
    using Cons.IH [OF d(1), of ts1] by (simp add: ts1_def)
  also have "\<dots> = map (\<lambda>i. if i \<in> set (k # ks) then F i (ts ! i) else ts ! i) [0..<length ts]"
  proof (rule map_cong [OF refl])
    fix i assume "i \<in> set [0..<length ts]"
    then have i: "i < length ts" by simp
    show "(if i \<in> set ks then F i (ts1 ! i) else ts1 ! i)
            = (if i \<in> set (k # ks) then F i (ts ! i) else ts ! i)"
    proof (cases "i = k")
      case True
      then show ?thesis using i d(2) by (simp add: ts1_def)
    next
      case False
      then have "ts1 ! i = ts ! i" by (simp add: ts1_def)
      then show ?thesis using False by simp
    qed
  qed
  finally show ?case .
qed

lemma mStep_pointwise:
  "mStep lfm alns ts =
     map (\<lambda>i. if i \<in> transcriptID ` set alns
               then addMass (ladd (LogVal lfm) (hitMassOf alns i)) (ts ! i) else ts ! i)
         [0..<length ts]"
proof -
  have "distinct (sort (remdups (map transcriptID alns)))" by simp
  from foldl_upd_pointwise [OF this, of "\<lambda>tid. addMass (ladd (LogVal lfm) (hitMassOf alns tid))" ts]
  show ?thesis by (simp add: mStep_def)
qed

lemma hitMassOf_skip:
  assumes "\<forall>a\<in>set g. logProb a = LOG_0"
  shows "hitMassOf (pre @ g @ post) i = hitMassOf (pre @ post) i"
proof -
  have "\<forall>x\<in>set (map logProb (filter (\<lambda>a. transcriptID a = i) g)). x = LOG_0"
    using assms by auto
  then have "foldl logAdd acc (map logProb (filter (\<lambda>a. transcriptID a = i) g)) = acc" for acc
    by (rule foldl_logAdd_all_LOG_0)
  then show ?thesis by (simp add: hitMassOf_def)
qed

lemma hitMassOf_absent: "i \<notin> transcriptID ` set alns \<Longrightarrow> hitMassOf alns i = LOG_0"
proof -
  assume "i \<notin> transcriptID ` set alns"
  then have "filter (\<lambda>a. transcriptID a = i) alns = []"
    by (auto simp: filter_empty_conv)
  then show ?thesis by (simp add: hitMassOf_def)
qed

lemma addMass_LOG_0: "addMass LOG_0 t = t"
  by (simp add: addMass_def logAdd_LOG_0_right)

lemma mStep_skip:
  assumes "\<forall>a\<in>set g. logProb a = LOG_0"
  shows "mStep lfm (pre @ g @ post) ts = mStep lfm (pre @ post) ts"
proof -
  have "(if i \<in> transcriptID ` set (pre @ g @ post)
         then addMass (ladd (LogVal lfm) (hitMassOf (pre @ g @ post) i)) (ts ! i) else ts ! i)
      = (if i \<in> transcriptID ` set (pre @ post)
         then addMass (ladd (LogVal lfm) (hitMassOf (pre @ post) i)) (ts ! i) else ts ! i)" for i
  proof (cases "i \<in> transcriptID ` set (pre @ post)")
    case True
    then have "i \<in> transcriptID ` set (pre @ g @ post)" by auto
    then show ?thesis using True hitMassOf_skip [OF assms] by simp
  next
    case False
    have "hitMassOf (pre @ g @ post) i = LOG_0"
      using hitMassOf_skip [OF assms, of pre post i] hitMassOf_absent [OF False] by simp
    then show ?thesis using False by (simp add: addMass_LOG_0)
  qed
  then show ?thesis by (simp only: mStep_pointwise)
qed

lemma sameMR_map_mass: "sameMR ts ts' \<Longrightarrow> map mass ts' = map mass ts"
  by (rule nth_equalityI) (simp_all add: sameMR_def)

lemma processGroups_append:
  "processGroups P (xs @ ys) stn =
     (case processGroups P xs stn of
        None \<Rightarrow> None
      | Some (xs', stn') \<Rightarrow>
          (case processGroups P ys stn' of
             None \<Rightarrow> None
           | Some (ys', stn'') \<Rightarrow> Some (xs' @ ys', stn'')))"
  by (induction xs arbitrary: stn) (auto split: option.splits)

lemma processGroups_length:
  "processGroups P gs stn = Some (gs', stn') \<Longrightarrow> length gs' = length gs"
  by (induction gs arbitrary: stn gs') (auto split: option.splits)

lemma processGroup_Nil: "processGroup P [] stn = Some ([], stn)"
  by (cases stn) (simp add: processGroup_def)

lemma processGroups_insert_empty:
  "processGroups P (pre @ [] # post) stn =
     (case processGroups P (pre @ post) stn of
        None \<Rightarrow> None
      | Some (b, stn') \<Rightarrow> Some (take (length pre) b @ [] # drop (length pre) b, stn'))"
proof (cases "processGroups P pre stn")
  case None
  then show ?thesis by (simp add: processGroups_append)
next
  case (Some r)
  obtain pre' stn1 where r: "r = (pre', stn1)" by (cases r)
  have l: "length pre' = length pre" using Some r by (auto dest: processGroups_length)
  show ?thesis using Some r l
    by (auto simp: processGroups_append processGroup_Nil split: option.splits)
qed

lemma concat_take_drop: "concat (take n b) @ concat (drop n b) = concat b"
proof -
  have "concat (take n b @ drop n b) = concat b" by (simp only: append_take_drop_id)
  then show ?thesis by (simp only: concat_append)
qed

lemma processMiniBatch_insert_empty:
  "processMiniBatch P (pre @ [] # post) st =
     (case processMiniBatch P (pre @ post) st of
        None \<Rightarrow> None
      | Some (b, st') \<Rightarrow> Some (take (length pre) b @ [] # drop (length pre) b, st'))"
  by (auto simp: processMiniBatch_def processGroups_insert_empty concat_take_drop Let_def
      split: option.splits)

subsection \<open>Rounds of whole mini-batches on one transcript\<close>

text \<open>Reads with the one alignment \<open>exAln 0\<close>, on a transcript whose mass is not
  \<^verbatim>\<open>LOG_0\<close>: every group is assigned, its alignment has probability 1 after
  normalisation, and while the flag is not set every group adds its fragment
  length to the length distribution.\<close>

lemma logAdd_LogVal: "\<exists>v. logAdd (LogVal a) y = LogVal v"
  by (cases y) simp_all

lemma mass_addMass: "mass t \<noteq> LOG_0 \<Longrightarrow> mass (addMass x t) \<noteq> LOG_0"
  by (cases "mass t"; cases x) (simp_all add: addMass_def)

lemma mStep_keeps_mass:
  assumes "i < length ts" "mass (ts ! i) \<noteq> LOG_0"
  shows "mass (mStep lfm alns ts ! i) \<noteq> LOG_0"
  using assms by (simp add: mStep_pointwise mass_addMass)

lemma processGroup_exAln:
  assumes ne: "transcripts st \<noteq> []" and m: "mass (transcripts st ! 0) \<noteq> LOG_0"
    and P: "\<not> useFragLenDist P" "\<not> useReadCompat P" "\<forall>k. uni P k < 1"
  shows "\<exists>g' st'. processGroup P [exAln 0] (st, n) = Some (g', st', n + 1) \<and>
      sameMR (transcripts st) (transcripts st') \<and>
      burnedIn st' = burnedIn st \<and> numAssignedFragments st' = numAssignedFragments st \<and>
      fragLengthDist st' = fragLengthDist st @
        (if burnedIn st then [] else [(200, logForgettingMass P)])"
proof -
  have rng: "\<forall>a\<in>set [exAln 0]. transcriptID a < length (transcripts st)"
    using ne by (simp add: exAln_def)
  from processGroup_cases [OF _ rng, of P n] obtain acc where
    sm: "sumOfAlignProbs acc = foldl logAdd LOG_0 (map logProb (eGroup P st [exAln 0]))"
    and s: "sameMR (transcripts st) (accTranscripts acc)"
    and pg: "processGroup P [exAln 0] (st, n) = Some (groupOutcome P st [exAln 0] n acc)"
    by blast
  obtain mv where mv: "mass (transcripts st ! 0) = LogVal mv" using m by (cases "mass (transcripts st ! 0)") auto
  define v where "v = mv - ln (refLengthOf (transcripts st ! 0))"
  have el: "eLogProb P (fragLengthDist st) (transcripts st) (exAln 0) = LogVal v"
    using mv P by (simp add: eLogProb_def alnLogProb_def logFragProbOf_def logAlignCompatProbOf_def
        exAln_def LOG_1_def v_def)
  have eg: "eGroup P st [exAln 0] = [(exAln 0)\<lparr>logProb := LogVal v\<rparr>]"
    using el by (simp add: eGroup_def)
  have sv: "sumOfAlignProbs acc = LogVal v" using sm eg by simp
  define fld' where "fld' = fragLengthDist st @
        (if burnedIn st then [] else [(200, logForgettingMass P)])"
  have nr: "normalizeAlns P (burnedIn st) v (eGroup P st [exAln 0]) (fragLengthDist st) (draws st)
          = ([(exAln 0)\<lparr>logProb := LogVal 0\<rparr>], fld', draws st + 1)"
    unfolding eg using P(3) by (simp add: sampleFLD_def exAln_def fld'_def)
  define st' where "st' = clusterUpdate P (transcriptUnique acc) (transcriptID (hd [exAln 0]))
                         [(exAln 0)\<lparr>logProb := LogVal 0\<rparr>]
                         (st\<lparr>transcripts := accTranscripts acc,
                             libTypeCounts := accLibTypeCounts acc,
                             fragLengthDist := fld', draws := draws st + 1\<rparr>)"
  have res: "processGroup P [exAln 0] (st, n) = Some ([(exAln 0)\<lparr>logProb := LogVal 0\<rparr>], st', n + 1)"
    using pg sv nr by (simp add: groupOutcome_def st'_def)
  have fr: "fragLengthDist st' = fld'" "burnedIn st' = burnedIn st"
      "numAssignedFragments st' = numAssignedFragments st"
    by (simp_all add: st'_def clusterUpdate_frame)
  have "sameMR (accTranscripts acc) (transcripts st')"
    using clusterUpdate_frame(5) [of "st\<lparr>transcripts := accTranscripts acc,
                             libTypeCounts := accLibTypeCounts acc,
                             fragLengthDist := fld', draws := draws st + 1\<rparr>"
               P "transcriptUnique acc" "transcriptID (hd [exAln 0])" "[(exAln 0)\<lparr>logProb := LogVal 0\<rparr>]"]
    by (simp add: st'_def)
  then have "sameMR (transcripts st) (transcripts st')" using s by (rule sameMR_trans [rotated])
  then show ?thesis using res fr by (simp add: fld'_def)
qed

lemma processGroups_exAln:
  assumes "transcripts st \<noteq> []" "mass (transcripts st ! 0) \<noteq> LOG_0"
    and P: "\<not> useFragLenDist P" "\<not> useReadCompat P" "\<forall>k. uni P k < 1"
  shows "\<exists>gs' st'. processGroups P (replicate k [exAln 0]) (st, n) = Some (gs', st', n + k) \<and>
      sameMR (transcripts st) (transcripts st') \<and>
      burnedIn st' = burnedIn st \<and> numAssignedFragments st' = numAssignedFragments st \<and>
      fragLengthDist st' = fragLengthDist st @
        (if burnedIn st then [] else replicate k (200, logForgettingMass P))"
  using assms(1,2)
proof (induction k arbitrary: st n)
  case 0
  then show ?case by (simp add: sameMR_refl)
next
  case (Suc k)
  from processGroup_exAln [OF Suc.prems P, of n] obtain g' st1 where
    pg: "processGroup P [exAln 0] (st, n) = Some (g', st1, n + 1)"
    and s1: "sameMR (transcripts st) (transcripts st1)"
    and b1: "burnedIn st1 = burnedIn st" and a1: "numAssignedFragments st1 = numAssignedFragments st"
    and f1: "fragLengthDist st1 = fragLengthDist st @
        (if burnedIn st then [] else [(200, logForgettingMass P)])"
    by blast
  have i1: "transcripts st1 \<noteq> []" "mass (transcripts st1 ! 0) \<noteq> LOG_0"
    using s1 Suc.prems by (auto simp: sameMR_def)
  from Suc.IH [OF i1, of "n + 1"] obtain gs' st2 where
    pgs: "processGroups P (replicate k [exAln 0]) (st1, n + 1) = Some (gs', st2, n + 1 + k)"
    and s2: "sameMR (transcripts st1) (transcripts st2)"
    and b2: "burnedIn st2 = burnedIn st1" and a2: "numAssignedFragments st2 = numAssignedFragments st1"
    and f2: "fragLengthDist st2 = fragLengthDist st1 @
        (if burnedIn st1 then [] else replicate k (200, logForgettingMass P))"
    by blast
  have res: "processGroups P (replicate (Suc k) [exAln 0]) (st, n) = Some (g' # gs', st2, n + Suc k)"
    using pg pgs by simp
  have "sameMR (transcripts st) (transcripts st2)" using s1 s2 by (rule sameMR_trans)
  moreover have "fragLengthDist st2 = fragLengthDist st @
        (if burnedIn st then [] else replicate (Suc k) (200, logForgettingMass P))"
    using f1 f2 b1 by simp
  ultimately show ?case using res b1 b2 a1 a2 by simp
qed

lemma processMiniBatch_exAln:
  assumes i: "transcripts st \<noteq> []" "mass (transcripts st ! 0) \<noteq> LOG_0"
    and P: "\<not> useFragLenDist P" "\<not> useReadCompat P" "\<forall>k. uni P k < 1"
  shows "\<exists>b' st'. processMiniBatch P (replicate k [exAln 0]) st = Some (b', st') \<and>
      transcripts st' \<noteq> [] \<and> mass (transcripts st' ! 0) \<noteq> LOG_0 \<and>
      numAssignedFragments st' = numAssignedFragments st + k \<and>
      burnedIn st' = (burnedIn st \<or> numBurninFrags \<le> numAssignedFragments st + k) \<and>
      fragLengthDist st' = fragLengthDist st @
        (if burnedIn st then [] else replicate k (200, logForgettingMass P))"
proof -
  from processGroups_exAln [OF i P, of k 0] obtain gs' st1 where
    pg: "processGroups P (replicate k [exAln 0]) (st, 0) = Some (gs', st1, 0 + k)"
    and s1: "sameMR (transcripts st) (transcripts st1)"
    and b1: "burnedIn st1 = burnedIn st" and a1: "numAssignedFragments st1 = numAssignedFragments st"
    and f1: "fragLengthDist st1 = fragLengthDist st @
        (if burnedIn st then [] else replicate k (200, logForgettingMass P))"
    by blast
  define st2 where "st2 = st1\<lparr>transcripts := mStep (logForgettingMass P) (concat gs') (transcripts st1)\<rparr>"
  define st3 where "st3 = st2\<lparr>numAssignedFragments := numAssignedFragments st2 + k\<rparr>"
  define st4 where "st4 = (if numBurninFrags \<le> numAssignedFragments st3 \<and> \<not> burnedIn st3
                      then st3\<lparr>burnedIn := True\<rparr> else st3)"
  have res: "processMiniBatch P (replicate k [exAln 0]) st = Some (gs', st4)"
    using pg by (simp add: processMiniBatch_def Let_def st2_def st3_def st4_def)
  have i1: "0 < length (transcripts st1)" "mass (transcripts st1 ! 0) \<noteq> LOG_0"
    using s1 i by (auto simp: sameMR_def)
  have t4: "transcripts st4 = mStep (logForgettingMass P) (concat gs') (transcripts st1)"
    by (simp add: st4_def st3_def st2_def)
  have l4: "transcripts st4 \<noteq> []"
    using i1(1) length_mStep [of "logForgettingMass P" "concat gs'" "transcripts st1"]
    unfolding t4 by auto
  have m4: "mass (transcripts st4 ! 0) \<noteq> LOG_0"
    unfolding t4 by (rule mStep_keeps_mass [OF i1])
  have fr: "fragLengthDist st4 = fragLengthDist st1"
    "numAssignedFragments st4 = numAssignedFragments st + k"
    using a1 by (simp_all add: st4_def st3_def st2_def)
  have bi: "burnedIn st4 = (burnedIn st \<or> numBurninFrags \<le> numAssignedFragments st + k)"
    using a1 b1 by (auto simp: st4_def st3_def st2_def)
  show ?thesis using res l4 m4 fr bi f1 by simp
qed


lemma exCall_params:
  "\<not> useFragLenDist (fst (exCall first lfm k))" "\<not> useReadCompat (fst (exCall first lfm k))"
  "\<forall>j. uni (fst (exCall first lfm k)) j < 1"
  "logForgettingMass (fst (exCall first lfm k)) = lfm"
  "snd (exCall first lfm k) = replicate k [exAln 0]"
  by (simp_all add: exCall_def exParams_def)

lemma runBatches_exCall:
  assumes i: "transcripts st \<noteq> []" "mass (transcripts st ! 0) \<noteq> LOG_0"
  shows "\<exists>st'. runBatches [exCall first lfm k] st = Some st' \<and>
      transcripts st' \<noteq> [] \<and> mass (transcripts st' ! 0) \<noteq> LOG_0 \<and>
      numAssignedFragments st' = numAssignedFragments st + k \<and>
      burnedIn st' = (burnedIn st \<or> numBurninFrags \<le> numAssignedFragments st + k) \<and>
      fragLengthDist st' = fragLengthDist st @
        (if burnedIn st then [] else replicate k (200, lfm))"
proof -
  obtain P b where c: "exCall first lfm k = (P, b)" by (cases "exCall first lfm k")
  have P: "\<not> useFragLenDist P" "\<not> useReadCompat P" "\<forall>j. uni P j < 1"
    "logForgettingMass P = lfm" "b = replicate k [exAln 0]"
    using exCall_params [of first lfm k] c by simp_all
  from processMiniBatch_exAln [OF i P(1-3), of k] show ?thesis
    unfolding c using P(4,5) by auto
qed

lemma runBatches_append:
  "runBatches (xs @ ys) st = (case runBatches xs st of None \<Rightarrow> None | Some st' \<Rightarrow> runBatches ys st')"
proof (induction xs arbitrary: st)
  case Nil
  then show ?case by simp
next
  case (Cons x xs)
  obtain P b where "x = (P, b)" by (cases x)
  then show ?case using Cons.IH by (simp split: option.splits)
qed

lemma runBatches_exRound:
  assumes "transcripts st \<noteq> []" "mass (transcripts st ! 0) \<noteq> LOG_0"
  shows "\<exists>st'. runBatches (map (\<lambda>i. exCall first (m i) k) js) st = Some st' \<and>
      transcripts st' \<noteq> [] \<and> mass (transcripts st' ! 0) \<noteq> LOG_0 \<and>
      numAssignedFragments st' = numAssignedFragments st + length js * k \<and>
      burnedIn st' = (burnedIn st \<or>
         (js \<noteq> [] \<and> numBurninFrags \<le> numAssignedFragments st + length js * k))"
  using assms
proof (induction js arbitrary: st)
  case Nil
  then show ?case by simp
next
  case (Cons j js)
  from runBatches_exCall [OF Cons.prems, of first "m j" k] obtain st1 where
    r1: "runBatches [exCall first (m j) k] st = Some st1"
    and i1: "transcripts st1 \<noteq> []" "mass (transcripts st1 ! 0) \<noteq> LOG_0"
    and a1: "numAssignedFragments st1 = numAssignedFragments st + k"
    and b1: "burnedIn st1 = (burnedIn st \<or> numBurninFrags \<le> numAssignedFragments st + k)"
    by blast
  from Cons.IH [OF i1] obtain st2 where
    r2: "runBatches (map (\<lambda>i. exCall first (m i) k) js) st1 = Some st2"
    and i2: "transcripts st2 \<noteq> []" "mass (transcripts st2 ! 0) \<noteq> LOG_0"
    and a2: "numAssignedFragments st2 = numAssignedFragments st1 + length js * k"
    and b2: "burnedIn st2 = (burnedIn st1 \<or>
         (js \<noteq> [] \<and> numBurninFrags \<le> numAssignedFragments st1 + length js * k))"
    by blast
  have "runBatches (map (\<lambda>i. exCall first (m i) k) (j # js)) st = Some st2"
    using runBatches_append [of "[exCall first (m j) k]" "map (\<lambda>i. exCall first (m i) k) js" st]
      r1 r2 by simp
  moreover have "numAssignedFragments st2 = numAssignedFragments st + length (j # js) * k"
    using a1 a2 by simp
  moreover have "burnedIn st2 = (burnedIn st \<or>
         (j # js \<noteq> [] \<and> numBurninFrags \<le> numAssignedFragments st + length (j # js) * k))"
    using b1 b2 a1 by auto
  ultimately show ?case using i2 by blast
qed

lemma processReads_exRound:
  assumes "transcripts (emState ex) \<noteq> []" "mass (transcripts (emState ex) ! 0) \<noteq> LOG_0"
  shows "\<exists>ex'. processReads (exRound first m n k) ex = Some ex' \<and>
      transcripts (emState ex') \<noteq> [] \<and> mass (transcripts (emState ex') ! 0) \<noteq> LOG_0 \<and>
      totalAssignedFragments ex' = totalAssignedFragments ex \<and>
      numAssignedFragments (emState ex') = numAssignedFragments (emState ex) + n * k \<and>
      burnedIn (emState ex') =
        (5000000 < totalAssignedFragments ex + numAssignedFragments (emState ex) \<or>
         (n \<noteq> 0 \<and> numBurninFrags \<le> numAssignedFragments (emState ex) + n * k))"
proof -
  define st0 where "st0 = (emState ex)\<lparr>burnedIn :=
      (5000000 < totalAssignedFragments ex + numAssignedFragments (emState ex))\<rparr>"
  have i0: "transcripts st0 \<noteq> []" "mass (transcripts st0 ! 0) \<noteq> LOG_0"
    using assms by (simp_all add: st0_def)
  from runBatches_exRound [OF i0, of first m k "[0..<n]"] obtain st' where
    r: "runBatches (map (\<lambda>i. exCall first (m i) k) [0..<n]) st0 = Some st'"
    and i: "transcripts st' \<noteq> []" "mass (transcripts st' ! 0) \<noteq> LOG_0"
    and a: "numAssignedFragments st' = numAssignedFragments st0 + length [0..<n] * k"
    and b: "burnedIn st' = (burnedIn st0 \<or>
         ([0..<n] \<noteq> [] \<and> numBurninFrags \<le> numAssignedFragments st0 + length [0..<n] * k))"
    by blast
  have "processReads (exRound first m n k) ex = Some (ex\<lparr>emState := st'\<rparr>)"
    using r by (simp add: processReads_def exRound_def st0_def Let_def)
  then show ?thesis using i a b by (simp add: st0_def)
qed

lemma processReads_snoc:
  "processReads (calls @ [c]) ex =
     (case processReads calls ex of
        None \<Rightarrow> None
      | Some ex' \<Rightarrow> map_option (\<lambda>st. ex'\<lparr>emState := st\<rparr>) (runBatches [c] (emState ex')))"
  by (simp add: processReads_def Let_def runBatches_append split: option.splits)

lemma processReads_Nil:
  "processReads [] ex = Some (ex\<lparr>emState := (emState ex)\<lparr>burnedIn :=
      (5000000 < totalAssignedFragments ex + numAssignedFragments (emState ex))\<rparr>\<rparr>)"
  by (simp add: processReads_def Let_def)

lemma processReads_exCall:
  assumes "transcripts (emState ex) \<noteq> []" "mass (transcripts (emState ex) ! 0) \<noteq> LOG_0"
  shows "\<exists>ex'. processReads [exCall first lfm k] ex = Some ex' \<and>
      transcripts (emState ex') \<noteq> [] \<and> mass (transcripts (emState ex') ! 0) \<noteq> LOG_0 \<and>
      totalAssignedFragments ex' = totalAssignedFragments ex \<and>
      numAssignedFragments (emState ex') = numAssignedFragments (emState ex) + k \<and>
      burnedIn (emState ex') =
        (5000000 < totalAssignedFragments ex + numAssignedFragments (emState ex) \<or>
         numBurninFrags \<le> numAssignedFragments (emState ex) + k) \<and>
      fragLengthDist (emState ex') = fragLengthDist (emState ex) @
        (if 5000000 < totalAssignedFragments ex + numAssignedFragments (emState ex) then []
         else replicate k (200, lfm))"
proof -
  define st0 where "st0 = (emState ex)\<lparr>burnedIn :=
      (5000000 < totalAssignedFragments ex + numAssignedFragments (emState ex))\<rparr>"
  have i0: "transcripts st0 \<noteq> []" "mass (transcripts st0 ! 0) \<noteq> LOG_0"
    using assms by (simp_all add: st0_def)
  from runBatches_exCall [OF i0, of first lfm k] obtain st' where
    r: "runBatches [exCall first lfm k] st0 = Some st'"
    and i: "transcripts st' \<noteq> []" "mass (transcripts st' ! 0) \<noteq> LOG_0"
    and a: "numAssignedFragments st' = numAssignedFragments st0 + k"
    and b: "burnedIn st' = (burnedIn st0 \<or> numBurninFrags \<le> numAssignedFragments st0 + k)"
    and f: "fragLengthDist st' = fragLengthDist st0 @
        (if burnedIn st0 then [] else replicate k (200, lfm))"
    by blast
  have "processReads [exCall first lfm k] ex = Some (ex\<lparr>emState := st'\<rparr>)"
    using r by (simp add: processReads_def st0_def Let_def)
  then show ?thesis using i a b f by (simp add: st0_def)
qed

lemma softReset_simps:
  "totalAssignedFragments (softReset ex) = totalAssignedFragments ex + numAssignedFragments (emState ex)"
  "numAssignedFragments (emState (softReset ex)) = 0"
  "transcripts (emState (softReset ex)) = transcripts (emState ex)"
  "fragLengthDist (emState (softReset ex)) = fragLengthDist (emState ex)"
  by (simp_all add: softReset_def)

lemma quantifyLibrary_one: "quantifyLibrary [r] ex = processReads r ex"
  by (simp add: quantifyLibrary_def split: option.splits)

lemma quantifyLibrary_two:
  "quantifyLibrary [r1, r2] ex =
     (case processReads r1 ex of None \<Rightarrow> None | Some ex1 \<Rightarrow> processReads r2 (softReset ex1))"
  by (simp add: quantifyLibrary_def split: option.splits)

lemma exExperiment_inv:
  "transcripts (emState exExperiment) \<noteq> []" "mass (transcripts (emState exExperiment) ! 0) \<noteq> LOG_0"
  "totalAssignedFragments exExperiment = 0" "numAssignedFragments (emState exExperiment) = 0"
  by (simp_all add: exExperiment_def exState_def exTranscript_def)

section \<open>Claims about the mini-batch EM worker\<close>

text \<open>
  C1. In the E-step (the first loop over a group's alignments, which returns
  whenever every transcript id lies inside the transcript vector), an alignment
  whose transcript has mass \<^verbatim>\<open>LOG_0\<close> gets \<^verbatim>\<open>logProb = LOG_0\<close>; every other alignment
  gets \<open>(mass - log length) + logFragProb + logOrientationProb\<close>, the length clamped
  to at least 1, \<open>logFragProb\<close> being the \<^verbatim>\<open>pmf\<close> of the fragment length when
  \<^verbatim>\<open>useFragLenDist\<close> is set and the fragment length is positive, and \<open>log 1\<close>
  otherwise. The transcripts are those at the start of the loop: the loop changes
  counts only.
\<close>

theorem eStep_logProb:
  assumes "\<forall>a\<in>set alns. transcriptID a < length (accTranscripts acc)"
  shows "\<exists>alns' acc'. eStepAlns P fld f alns acc = Some (alns', acc') \<and>
     length alns' = length alns \<and>
     (\<forall>i<length alns.
        let a = alns ! i; t = accTranscripts acc ! transcriptID a;
            refLength = (if RefLength t > 0 then real (RefLength t) else 1);
            logFragProb = (if useFragLenDist P \<and> fragLength a > 0
                           then pmf P fld (fragLength a) else LOG_1);
            logOrientationProb = (if useReadCompat P
                           then logAlignFormatProb (format a) (expectedLibraryFormat P)
                           else LOG_1)
        in logProb (alns' ! i) =
             (if mass t = LOG_0 then LOG_0
              else ladd (ladd (lsub (mass t) (ln refLength)) logFragProb) logOrientationProb))"
proof -
  from eStepAlns_result [OF sameMR_refl assms, of P fld f] obtain acc' where
    run: "eStepAlns P fld f alns acc =
            Some (map (\<lambda>a. a\<lparr>logProb := eLogProb P fld (accTranscripts acc) a\<rparr>) alns, acc')"
    by blast
  have "eLogProb P fld (accTranscripts acc) a =
          (let t = accTranscripts acc ! transcriptID a;
            refLength = (if RefLength t > 0 then real (RefLength t) else 1);
            logFragProb = (if useFragLenDist P \<and> fragLength a > 0
                           then pmf P fld (fragLength a) else LOG_1);
            logOrientationProb = (if useReadCompat P
                           then logAlignFormatProb (format a) (expectedLibraryFormat P)
                           else LOG_1)
           in if mass t = LOG_0 then LOG_0
              else ladd (ladd (lsub (mass t) (ln refLength)) logFragProb) logOrientationProb)" for a
    by (simp add: eLogProb_def alnLogProb_def refLengthOf_def logFragProbOf_def
        logAlignCompatProbOf_def Let_def)
  then show ?thesis using run by (simp add: Let_def)
qed

theorem eStep_logProb_witness:
  "(\<exists>alns' acc'. eStepAlns exParams [] 0 [exAln 0, exAln 1] (initAcc (exState LOG_0))
                   = Some (alns', acc') \<and>
      logProb (alns' ! 0) = LogVal 0 \<and> logProb (alns' ! 1) = LOG_0)"
proof -
  have r: "\<forall>a\<in>set [exAln 0, exAln 1].
             transcriptID a < length (accTranscripts (initAcc (exState LOG_0)))"
    by (simp add: exAln_def exState_def initAcc_def)
  from eStep_logProb [OF r, of exParams "[]" 0] obtain alns' acc' where
    run: "eStepAlns exParams [] 0 [exAln 0, exAln 1] (initAcc (exState LOG_0)) = Some (alns', acc')"
    and each: "\<forall>i<length [exAln 0, exAln 1].
        let a = [exAln 0, exAln 1] ! i;
            t = accTranscripts (initAcc (exState LOG_0)) ! transcriptID a;
            refLength = (if RefLength t > 0 then real (RefLength t) else 1);
            logFragProb = (if useFragLenDist exParams \<and> fragLength a > 0
                           then pmf exParams [] (fragLength a) else LOG_1);
            logOrientationProb = (if useReadCompat exParams
                           then logAlignFormatProb (format a) (expectedLibraryFormat exParams)
                           else LOG_1)
        in logProb (alns' ! i) =
             (if mass t = LOG_0 then LOG_0
              else ladd (ladd (lsub (mass t) (ln refLength)) logFragProb) logOrientationProb)"
    by blast
  have "logProb (alns' ! 0) = LogVal 0"
    using each [rule_format, of 0]
    by (simp add: exAln_def exState_def initAcc_def exParams_def exTranscript_def LOG_1_def)
  moreover have "logProb (alns' ! 1) = LOG_0"
    using each [rule_format, of 1]
    by (simp add: exAln_def exState_def initAcc_def exParams_def exTranscript_def LOG_1_def)
  ultimately show ?thesis using run by blast
qed

text \<open>
  C2. For a non-empty group (with transcript ids inside the vector) the sum \<open>S\<close>
  the E-step accumulates is the log-sum-exp of the group's \<^verbatim>\<open>logProb\<close> values. If
  \<open>S\<close> is \<^verbatim>\<open>LOG_0\<close> the group is skipped: the count of assigned fragments, the
  cluster forest, the length distribution, the random draws and the masses are
  unchanged, and the M-step gives the same masses with the group's alignments as
  without them. Otherwise the group is counted, \<open>S\<close> is subtracted from every
  \<^verbatim>\<open>logProb\<close>, and the exponentials of the group's \<^verbatim>\<open>logProb\<close> values sum to 1.
\<close>

theorem processGroup_normalization:
  assumes "g \<noteq> []" and "\<forall>a\<in>set g. transcriptID a < length (transcripts st)"
  shows "\<exists>g1 acc g' st' n'.
      eStepAlns P (fragLengthDist st) (transcriptID (hd g)) g (initAcc st) = Some (g1, acc) \<and>
      sumOfAlignProbs acc = foldl logAdd LOG_0 (map logProb g1) \<and>
      processGroup P g (st, n) = Some (g', st', n') \<and>
      (sumOfAlignProbs acc = LOG_0 \<longrightarrow>
         n' = n \<and> clusterForest st' = clusterForest st \<and>
         fragLengthDist st' = fragLengthDist st \<and> draws st' = draws st \<and>
         map mass (transcripts st') = map mass (transcripts st) \<and>
         (\<forall>pre post ts. mStep (logForgettingMass P) (pre @ g' @ post) ts
                          = mStep (logForgettingMass P) (pre @ post) ts)) \<and>
      (\<forall>s. sumOfAlignProbs acc = LogVal s \<longrightarrow>
         n' = n + 1 \<and> g' = map (\<lambda>a. a\<lparr>logProb := lsub (logProb a) s\<rparr>) g1 \<and>
         (\<Sum>a\<leftarrow>g'. expL (logProb a)) = 1)"
proof -
  from processGroup_cases [OF assms, of P n] obtain acc where
    run: "eStepAlns P (fragLengthDist st) (transcriptID (hd g)) g (initAcc st)
            = Some (eGroup P st g, acc)"
    and sm: "sumOfAlignProbs acc = foldl logAdd LOG_0 (map logProb (eGroup P st g))"
    and s: "sameMR (transcripts st) (accTranscripts acc)"
    and pg: "processGroup P g (st, n) = Some (groupOutcome P st g n acc)"
    by blast
  obtain g' st' n' where out: "groupOutcome P st g n acc = (g', st', n')"
    by (cases "groupOutcome P st g n acc")
  have skip: "n' = n \<and> clusterForest st' = clusterForest st \<and>
         fragLengthDist st' = fragLengthDist st \<and> draws st' = draws st \<and>
         map mass (transcripts st') = map mass (transcripts st) \<and>
         (\<forall>pre post ts. mStep (logForgettingMass P) (pre @ g' @ post) ts
                          = mStep (logForgettingMass P) (pre @ post) ts)"
    if z: "sumOfAlignProbs acc = LOG_0"
  proof -
    have o: "g' = eGroup P st g" "n' = n"
      "st' = st\<lparr>transcripts := accTranscripts acc, libTypeCounts := accLibTypeCounts acc\<rparr>"
      using out z by (simp_all add: groupOutcome_def)
    have "\<forall>x\<in>set (map logProb (eGroup P st g)). x = LOG_0"
      using sm z by (simp only: foldl_logAdd_LOG_0_iff [symmetric])
    then have all0: "\<forall>a\<in>set g'. logProb a = LOG_0" using o(1) by simp
    have "map mass (transcripts st') = map mass (transcripts st)"
      using sameMR_map_mass [OF s] o(3) by simp
    then show ?thesis using o mStep_skip [OF all0] by simp
  qed
  have norm: "n' = n + 1 \<and> g' = map (\<lambda>a. a\<lparr>logProb := lsub (logProb a) sv\<rparr>) (eGroup P st g) \<and>
         (\<Sum>a\<leftarrow>g'. expL (logProb a)) = 1"
    if v: "sumOfAlignProbs acc = LogVal sv" for sv
  proof -
    from normalizeAlns_result [of P "burnedIn st" sv "eGroup P st g" "fragLengthDist st" "draws st"]
    obtain added where
      nr: "normalizeAlns P (burnedIn st) sv (eGroup P st g) (fragLengthDist st) (draws st)
             = (map (normAln sv) (eGroup P st g), fragLengthDist st @ added,
                draws st + length (eGroup P st g))"
      by blast
    have o: "g' = map (normAln sv) (eGroup P st g)" "n' = n + 1"
      using out v nr by (simp_all add: groupOutcome_def)
    have "(\<Sum>a\<leftarrow>g'. expL (logProb a)) = 1"
      using sum_expL_normalized [of "eGroup P st g" sv] sm v o(1) by simp
    then show ?thesis using o by (simp add: normAln_def)
  qed
  have skip': "sumOfAlignProbs acc = LOG_0 \<longrightarrow>
         n' = n \<and> clusterForest st' = clusterForest st \<and>
         fragLengthDist st' = fragLengthDist st \<and> draws st' = draws st \<and>
         map mass (transcripts st') = map mass (transcripts st) \<and>
         (\<forall>pre post ts. mStep (logForgettingMass P) (pre @ g' @ post) ts
                          = mStep (logForgettingMass P) (pre @ post) ts)"
    using skip by blast
  have norm': "\<forall>s. sumOfAlignProbs acc = LogVal s \<longrightarrow>
         n' = n + 1 \<and> g' = map (\<lambda>a. a\<lparr>logProb := lsub (logProb a) s\<rparr>) (eGroup P st g) \<and>
         (\<Sum>a\<leftarrow>g'. expL (logProb a)) = 1"
    using norm by blast
  have pg': "processGroup P g (st, n) = Some (g', st', n')" using pg out by simp
  from run sm pg' skip' norm' show ?thesis by blast
qed

theorem processGroup_normalization_witness:
  "[exAln 0, exAln 1] \<noteq> [] \<and>
   (\<exists>g' st' n'. processGroup exParams [exAln 0, exAln 1] (exState (LogVal 0), 0)
                   = Some (g', st', n') \<and>
      n' = 1 \<and> (\<Sum>a\<leftarrow>g'. expL (logProb a)) = 1)"
proof -
  let ?g = "[exAln 0, exAln 1]"
  let ?st = "exState (LogVal 0)"
  have r: "\<forall>a\<in>set ?g. transcriptID a < length (transcripts ?st)"
    by (simp add: exAln_def exState_def)
  from processGroup_normalization [of ?g ?st exParams 0] r
  obtain g1 acc g' st' n' where
    run: "eStepAlns exParams (fragLengthDist ?st) (transcriptID (hd ?g)) ?g (initAcc ?st)
            = Some (g1, acc)"
    and sm: "sumOfAlignProbs acc = foldl logAdd LOG_0 (map logProb g1)"
    and pg: "processGroup exParams ?g (?st, 0) = Some (g', st', n')"
    and norm: "\<forall>s. sumOfAlignProbs acc = LogVal s \<longrightarrow>
         n' = 0 + 1 \<and> g' = map (\<lambda>a. a\<lparr>logProb := lsub (logProb a) s\<rparr>) g1 \<and>
         (\<Sum>a\<leftarrow>g'. expL (logProb a)) = 1"
    by blast
  have s0: "sameMR (transcripts ?st) (accTranscripts (initAcc ?st))"
    by (simp add: initAcc_simps sameMR_refl)
  from eStepAlns_result [OF s0 r, of exParams "fragLengthDist ?st" "transcriptID (hd ?g)"] run
  have g1: "g1 = map (\<lambda>a. a\<lparr>logProb := eLogProb exParams (fragLengthDist ?st) (transcripts ?st) a\<rparr>) ?g"
    by auto
  have e: "eLogProb exParams (fragLengthDist ?st) (transcripts ?st) (exAln 0) = LogVal 0"
    "eLogProb exParams (fragLengthDist ?st) (transcripts ?st) (exAln 1) = LogVal 0"
    by (simp_all add: eLogProb_def alnLogProb_def refLengthOf_def logFragProbOf_def
        logAlignCompatProbOf_def exAln_def exState_def exParams_def exTranscript_def LOG_1_def)
  have "sumOfAlignProbs acc = LogVal (ln 2)"
    using sm g1 e by simp
  note n = norm [rule_format, OF this]
  have "n' = 1" using n by simp
  moreover have "(\<Sum>a\<leftarrow>g'. expL (logProb a)) = 1" using n by blast
  ultimately show ?thesis using pg by blast
qed

text \<open>
  C3. The claim: \<^verbatim>\<open>addVal\<close> is called only while \<^verbatim>\<open>burnedIn\<close> is false (and only
  for a positive fragment length and a uniform variate below the alignment's
  probability); \<^verbatim>\<open>burnedIn\<close> becomes true exactly when the running total of
  assigned fragments reaches at least 5,000,000, and after that the length
  distribution is never updated again. Inside one round the code does this
  (\<open>processMiniBatch_summary\<close>, \<open>runBatches_burned\<close>). The code over two rounds,
  at two concrete inputs, with whole mini-batches of 1000 reads that each have one
  alignment of fragment length 200 on a transcript of positive mass, for any
  forgetting masses \<open>m\<close>, \<open>w\<close>, \<open>w'\<close>:

  \<^item> The first round assigns exactly 5,000,000 fragments, so its last call sets
    \<^verbatim>\<open>burnedIn\<close>. For the second round \<^verbatim>\<open>softReset\<close> moves the count to the total
    and \<^verbatim>\<open>processReads\<close> declares the flag anew as \<open>5000000 + 0 > 5000000\<close>, which
    is false: the first read of the second round adds its fragment length to the
    length distribution.

  \<^item> The first round assigns 4,999,000 fragments. In the second round the flag
    starts false and the counter at zero; after the first call the running total
    is 5,000,000, the counter that \<^verbatim>\<open>processMiniBatch\<close> compares with 5,000,000 is
    1000, the flag stays false, and the next call adds 1000 fragment lengths to
    the length distribution.
\<close>

theorem burnedIn_across_rounds:
  "(\<exists>ex1 ex2.
      quantifyLibrary [exRound True m 5000 1000] exExperiment = Some ex1 \<and>
      numAssignedFragments (emState ex1) = 5000000 \<and> burnedIn (emState ex1) \<and>
      quantifyLibrary [exRound True m 5000 1000, [exCall False w 1]] exExperiment = Some ex2 \<and>
      totalAssignedFragments ex2 = 5000000 \<and> numAssignedFragments (emState ex2) = 1 \<and>
      \<not> burnedIn (emState ex2) \<and>
      fragLengthDist (emState ex2) = fragLengthDist (emState ex1) @ [(200, w)]) \<and>
   (\<exists>ex1 ex2 ex3.
      quantifyLibrary [exRound True m 4999 1000] exExperiment = Some ex1 \<and>
      numAssignedFragments (emState ex1) = 4999000 \<and>
      quantifyLibrary [exRound True m 4999 1000, [exCall False w 1000]] exExperiment = Some ex2 \<and>
      totalAssignedFragments ex2 + numAssignedFragments (emState ex2) = 5000000 \<and>
      \<not> burnedIn (emState ex2) \<and>
      quantifyLibrary [exRound True m 4999 1000, [exCall False w 1000, exCall False w' 1000]]
        exExperiment = Some ex3 \<and>
      fragLengthDist (emState ex3) = fragLengthDist (emState ex2) @ replicate 1000 (200, w'))"
proof (intro conjI)
  from processReads_exRound [OF exExperiment_inv(1,2), of True m 5000 1000] obtain ex1 where
    r1: "processReads (exRound True m 5000 1000) exExperiment = Some ex1"
    and i1: "transcripts (emState ex1) \<noteq> []" "mass (transcripts (emState ex1) ! 0) \<noteq> LOG_0"
    and t1: "totalAssignedFragments ex1 = 0"
    and a1: "numAssignedFragments (emState ex1) = 5000000"
    and b1: "burnedIn (emState ex1)"
    by (auto simp: exExperiment_inv numBurninFrags_def)
  have i1': "transcripts (emState (softReset ex1)) \<noteq> []"
    "mass (transcripts (emState (softReset ex1)) ! 0) \<noteq> LOG_0"
    using i1 by (simp_all add: softReset_simps)
  from processReads_exCall [OF i1', of False w 1] obtain ex2 where
    r2: "processReads [exCall False w 1] (softReset ex1) = Some ex2"
    and t2: "totalAssignedFragments ex2 = 5000000"
    and a2: "numAssignedFragments (emState ex2) = 1"
    and b2: "\<not> burnedIn (emState ex2)"
    and f2: "fragLengthDist (emState ex2) = fragLengthDist (emState ex1) @ [(200, w)]"
    using t1 a1 by (auto simp: softReset_simps numBurninFrags_def)
  show "\<exists>ex1 ex2.
      quantifyLibrary [exRound True m 5000 1000] exExperiment = Some ex1 \<and>
      numAssignedFragments (emState ex1) = 5000000 \<and> burnedIn (emState ex1) \<and>
      quantifyLibrary [exRound True m 5000 1000, [exCall False w 1]] exExperiment = Some ex2 \<and>
      totalAssignedFragments ex2 = 5000000 \<and> numAssignedFragments (emState ex2) = 1 \<and>
      \<not> burnedIn (emState ex2) \<and>
      fragLengthDist (emState ex2) = fragLengthDist (emState ex1) @ [(200, w)]"
    using r1 a1 b1 r2 t2 a2 b2 f2
    by (intro exI [of _ ex1] exI [of _ ex2]) (simp add: quantifyLibrary_one quantifyLibrary_two)
next
  from processReads_exRound [OF exExperiment_inv(1,2), of True m 4999 1000] obtain ex1 where
    r1: "processReads (exRound True m 4999 1000) exExperiment = Some ex1"
    and i1: "transcripts (emState ex1) \<noteq> []" "mass (transcripts (emState ex1) ! 0) \<noteq> LOG_0"
    and t1: "totalAssignedFragments ex1 = 0"
    and a1: "numAssignedFragments (emState ex1) = 4999000"
    by (auto simp: exExperiment_inv numBurninFrags_def)
  have i1': "transcripts (emState (softReset ex1)) \<noteq> []"
    "mass (transcripts (emState (softReset ex1)) ! 0) \<noteq> LOG_0"
    using i1 by (simp_all add: softReset_simps)
  from processReads_exCall [OF i1', of False w 1000] obtain ex2 where
    r2: "processReads [exCall False w 1000] (softReset ex1) = Some ex2"
    and i2: "transcripts (emState ex2) \<noteq> []" "mass (transcripts (emState ex2) ! 0) \<noteq> LOG_0"
    and t2: "totalAssignedFragments ex2 = 4999000"
    and a2: "numAssignedFragments (emState ex2) = 1000"
    and b2: "\<not> burnedIn (emState ex2)"
    using t1 a1 by (auto simp: softReset_simps numBurninFrags_def)
  from runBatches_exCall [OF i2, of False w' 1000] obtain st3 where
    r3: "runBatches [exCall False w' 1000] (emState ex2) = Some st3"
    and f3: "fragLengthDist st3 = fragLengthDist (emState ex2) @ replicate 1000 (200, w')"
    using b2 by auto
  have r3': "processReads [exCall False w 1000, exCall False w' 1000] (softReset ex1)
          = Some (ex2\<lparr>emState := st3\<rparr>)"
    using processReads_snoc [of "[exCall False w 1000]" "exCall False w' 1000" "softReset ex1"]
      r2 r3 by simp
  show "\<exists>ex1 ex2 ex3.
      quantifyLibrary [exRound True m 4999 1000] exExperiment = Some ex1 \<and>
      numAssignedFragments (emState ex1) = 4999000 \<and>
      quantifyLibrary [exRound True m 4999 1000, [exCall False w 1000]] exExperiment = Some ex2 \<and>
      totalAssignedFragments ex2 + numAssignedFragments (emState ex2) = 5000000 \<and>
      \<not> burnedIn (emState ex2) \<and>
      quantifyLibrary [exRound True m 4999 1000, [exCall False w 1000, exCall False w' 1000]]
        exExperiment = Some ex3 \<and>
      fragLengthDist (emState ex3) = fragLengthDist (emState ex2) @ replicate 1000 (200, w')"
    using r1 a1 r2 t2 a2 b2 r3' f3
    by (intro exI [of _ ex1] exI [of _ ex2] exI [of _ "ex2\<lparr>emState := st3\<rparr>"])
       (simp add: quantifyLibrary_one quantifyLibrary_two)
qed

text \<open>
  C7. A group with more than \<^verbatim>\<open>maxReadOccs\<close> alignments is cleared, adds nothing to
  \<^verbatim>\<open>validHits\<close>, and is still counted in \<^verbatim>\<open>numObservedFragments\<close>. In the
  mini-batch EM the cleared group is skipped: the call with the group at any
  place of the batch ends in the same state (masses, counts, assigned fragments,
  cluster forest, length distribution) as the call on the batch without it, and
  the group stays empty.
\<close>

theorem tooManyOccs_group_skipped:
  assumes "maxReadOccs < length hitList"
  shows "observeFragment maxReadOccs hitList (validHits, numObserved)
           = ([], validHits, numObserved + 1) \<and>
         (\<forall>P pre post st.
            processMiniBatch P
              (pre @ fst (observeFragment maxReadOccs hitList (validHits, numObserved)) # post) st =
              (case processMiniBatch P (pre @ post) st of
                 None \<Rightarrow> None
               | Some (b, st') \<Rightarrow> Some (take (length pre) b @ [] # drop (length pre) b, st')))"
  using assms by (simp add: observeFragment_def processMiniBatch_insert_empty)

theorem tooManyOccs_group_skipped_witness:
  "(1 :: nat) < length [exAln 0, exAln 1] \<and>
   observeFragment 1 [exAln 0, exAln 1] (0, 0) = ([], 0, 1) \<and>
   processMiniBatch exParams [fst (observeFragment 1 [exAln 0, exAln 1] (0, 0))]
       (exState (LogVal 0)) = Some ([[]], exState (LogVal 0))"
proof -
  have l: "(1 :: nat) < length [exAln 0, exAln 1]" by simp
  have e: "processMiniBatch exParams [] (exState (LogVal 0)) = Some ([], exState (LogVal 0))"
    by (simp add: processMiniBatch_def mStep_def exState_def numBurninFrags_def)
  note t = tooManyOccs_group_skipped [OF l, of 0 0]
  have o: "observeFragment 1 [exAln 0, exAln 1] (0, 0) = ([], 0, 1)"
    using t [THEN conjunct1] by simp
  have "processMiniBatch exParams
          ([] @ fst (observeFragment 1 [exAln 0, exAln 1] (0, 0)) # []) (exState (LogVal 0))
        = Some ([[]], exState (LogVal 0))"
    by (simp only: t [THEN conjunct2, rule_format]) (simp add: e)
  then show ?thesis using l o by simp
qed

section \<open>Proofs: paired-end fragments\<close>

lemma computeBestChain_total: "\<exists>h'. computeBestChain rl h = Some h'"
  using computeBestChain_result [of rl h] by blast

lemma chainAll_total: "\<exists>ys. chainAll rl xs = Some ys"
proof (induction xs)
  case Nil
  then show ?case by simp
next
  case (Cons x xs)
  obtain tid h where x: "x = (tid, h)" by (cases x)
  obtain h' where "computeBestChain rl h = Some h'" using computeBestChain_total by blast
  then show ?case using Cons x by auto
qed

lemma chainAll_map_of:
  "chainAll rl xs = Some ys \<Longrightarrow> map_of ys k = Some l
   \<Longrightarrow> \<exists>l0. map_of xs k = Some l0 \<and> computeBestChain rl l0 = Some l"
proof (induction xs arbitrary: ys)
  case Nil
  then show ?case by simp
next
  case (Cons x xs)
  obtain tid h where x: "x = (tid, h)" by (cases x)
  from Cons.prems(1) x obtain h' rest' where
    h': "computeBestChain rl h = Some h'" and rest: "chainAll rl xs = Some rest'"
    and ys: "ys = (tid, h') # rest'"
    by (auto split: option.splits)
  show ?case
  proof (cases "k = tid")
    case True
    then show ?thesis using Cons.prems(2) ys h' x by simp
  next
    case False
    then have "map_of rest' k = Some l" using Cons.prems(2) ys by simp
    from Cons.IH [OF rest this] show ?thesis using False x by simp
  qed
qed

lemma not_dbl_lt: "(\<not> dbl_lt x t) = dbl_ge x t"
  by (cases x) auto

lemma pairLoop_emitted:
  "\<exists>alns. pairLoop hitType cutoff lrl rrl left rs = Some alns \<and>
     (\<forall>a\<in>set alns. \<exists>l r0 r. map_of left (transcriptID a) = Some l \<and>
         (transcriptID a, r0) \<in> set rs \<and> computeBestChain rrl r0 = Some r \<and>
         dbl_ge (bestHitScore l) cutoff \<and> dbl_ge (bestHitScore r) cutoff \<and>
         a = pairedAlignment hitType lrl rrl (transcriptID a) l r)"
proof (induction rs)
  case Nil
  then show ?case by simp
next
  case (Cons x rs)
  obtain tid h where x: "x = (tid, h)" by (cases x)
  obtain alns where run: "pairLoop hitType cutoff lrl rrl left rs = Some alns"
    and each: "\<forall>a\<in>set alns. \<exists>l r0 r. map_of left (transcriptID a) = Some l \<and>
         (transcriptID a, r0) \<in> set rs \<and> computeBestChain rrl r0 = Some r \<and>
         dbl_ge (bestHitScore l) cutoff \<and> dbl_ge (bestHitScore r) cutoff \<and>
         a = pairedAlignment hitType lrl rrl (transcriptID a) l r"
    using Cons.IH by blast
  have each': "\<forall>a\<in>set alns. \<exists>l r0 r. map_of left (transcriptID a) = Some l \<and>
         (transcriptID a, r0) \<in> set (x # rs) \<and> computeBestChain rrl r0 = Some r \<and>
         dbl_ge (bestHitScore l) cutoff \<and> dbl_ge (bestHitScore r) cutoff \<and>
         a = pairedAlignment hitType lrl rrl (transcriptID a) l r"
    using each by fastforce
  obtain r where r: "computeBestChain rrl h = Some r" using computeBestChain_total by blast
  show ?case
  proof (cases "\<exists>l. map_of left tid = Some l \<and> dbl_ge (bestHitScore l) cutoff \<and>
                     dbl_ge (bestHitScore r) cutoff")
    case False
    then have "pairLoop hitType cutoff lrl rrl left (x # rs) = Some alns"
      using run r x by (auto simp: not_dbl_lt [symmetric] split: option.splits)
    then show ?thesis using each' by blast
  next
    case True
    then obtain l where l: "map_of left tid = Some l" "dbl_ge (bestHitScore l) cutoff"
      "dbl_ge (bestHitScore r) cutoff" by blast
    define a0 where "a0 = pairedAlignment hitType lrl rrl tid l r"
    have t0: "transcriptID a0 = tid" by (simp add: a0_def pairedAlignment_def Let_def)
    have res: "pairLoop hitType cutoff lrl rrl left (x # rs) = Some (a0 # alns)"
      using run r x l by (simp add: not_dbl_lt a0_def)
    have "\<exists>l r0 r. map_of left (transcriptID a0) = Some l \<and>
         (transcriptID a0, r0) \<in> set (x # rs) \<and> computeBestChain rrl r0 = Some r \<and>
         dbl_ge (bestHitScore l) cutoff \<and> dbl_ge (bestHitScore r) cutoff \<and>
         a0 = pairedAlignment hitType lrl rrl (transcriptID a0) l r"
      using l r x t0 a0_def by (intro exI [of _ l] exI [of _ h] exI [of _ r]) simp
    then show ?thesis using res each' by auto
  qed
qed

lemma unat_fragLength:
  assumes "nat \<bar>z\<bar> + unat (w :: u32) < 2 ^ 32"
  shows "unat (word_of_int \<bar>z\<bar> + w) = nat \<bar>z\<bar> + unat w"
proof -
  have "(word_of_int \<bar>z\<bar> :: u32) = of_nat (nat \<bar>z\<bar>)" by simp
  then have "unat (word_of_int \<bar>z\<bar> + w) = (nat \<bar>z\<bar> mod 2 ^ 32 + unat w) mod 2 ^ 32"
    by (simp only: unat_word_ariths unat_of_nat) simp
  then show ?thesis using assms by simp
qed

section \<open>Claims about paired-end fragments\<close>

text \<open>
  C4. \<^verbatim>\<open>getHitsForFragment\<close> for a pair always returns, and every alignment it emits
  for a transcript comes from a left and a right hit list of that same transcript
  whose best chain scores both reach \<^verbatim>\<open>coverageThresh\<close>; its score is the mean of
  the two \<^verbatim>\<open>bestHitScore\<close> values, and its \<^verbatim>\<open>fragLength\<close> is the absolute difference
  of the two \<^verbatim>\<open>bestHitPos\<close> values plus the length of the second read, in unsigned
  32-bit arithmetic (and as natural numbers when the sum is below \<open>2 ^ 32\<close>).
\<close>

theorem paired_alignment_both_ends:
  "\<exists>alns. getHitsForFragment hitType coverageThresh leftReadLength rightReadLength leftHits rightHits
             = Some alns \<and>
     (\<forall>a\<in>set alns. \<exists>l r.
         pairedFrom leftReadLength rightReadLength leftHits rightHits a l r \<and>
         dbl_ge (bestHitScore l) coverageThresh \<and> dbl_ge (bestHitScore r) coverageThresh \<and>
         score a = dbl_avg (bestHitScore l) (bestHitScore r) \<and>
         (\<forall>x y. bestHitScore l = Fin x \<and> bestHitScore r = Fin y \<longrightarrow> score a = Fin ((x + y) / 2)) \<and>
         fragLength a = word_of_int \<bar>sint (bestHitPos l) - sint (bestHitPos r)\<bar> + rightReadLength \<and>
         (nat \<bar>sint (bestHitPos l) - sint (bestHitPos r)\<bar> + unat rightReadLength < 2 ^ 32 \<longrightarrow>
            unat (fragLength a) =
              nat \<bar>sint (bestHitPos l) - sint (bestHitPos r)\<bar> + unat rightReadLength))"
proof -
  obtain left where left: "chainAll leftReadLength leftHits = Some left"
    using chainAll_total by blast
  from pairLoop_emitted [of hitType coverageThresh leftReadLength rightReadLength left rightHits]
  obtain alns where run: "pairLoop hitType coverageThresh leftReadLength rightReadLength left rightHits
                            = Some alns"
    and each: "\<forall>a\<in>set alns. \<exists>l r0 r. map_of left (transcriptID a) = Some l \<and>
         (transcriptID a, r0) \<in> set rightHits \<and> computeBestChain rightReadLength r0 = Some r \<and>
         dbl_ge (bestHitScore l) coverageThresh \<and> dbl_ge (bestHitScore r) coverageThresh \<and>
         a = pairedAlignment hitType leftReadLength rightReadLength (transcriptID a) l r"
    by blast
  have res: "getHitsForFragment hitType coverageThresh leftReadLength rightReadLength leftHits rightHits
               = Some alns"
    using left run by (simp add: getHitsForFragment_def)
  have "\<exists>l r.
         pairedFrom leftReadLength rightReadLength leftHits rightHits a l r \<and>
         dbl_ge (bestHitScore l) coverageThresh \<and> dbl_ge (bestHitScore r) coverageThresh \<and>
         score a = dbl_avg (bestHitScore l) (bestHitScore r) \<and>
         (\<forall>x y. bestHitScore l = Fin x \<and> bestHitScore r = Fin y \<longrightarrow> score a = Fin ((x + y) / 2)) \<and>
         fragLength a = word_of_int \<bar>sint (bestHitPos l) - sint (bestHitPos r)\<bar> + rightReadLength \<and>
         (nat \<bar>sint (bestHitPos l) - sint (bestHitPos r)\<bar> + unat rightReadLength < 2 ^ 32 \<longrightarrow>
            unat (fragLength a) =
              nat \<bar>sint (bestHitPos l) - sint (bestHitPos r)\<bar> + unat rightReadLength)"
    if a: "a \<in> set alns" for a
  proof -
    from each a obtain l r0 r where
      l: "map_of left (transcriptID a) = Some l"
      and r0: "(transcriptID a, r0) \<in> set rightHits" "computeBestChain rightReadLength r0 = Some r"
      and ge: "dbl_ge (bestHitScore l) coverageThresh" "dbl_ge (bestHitScore r) coverageThresh"
      and eq: "a = pairedAlignment hitType leftReadLength rightReadLength (transcriptID a) l r"
      by blast
    from chainAll_map_of [OF left l] obtain l0 where
      l0: "map_of leftHits (transcriptID a) = Some l0" "computeBestChain leftReadLength l0 = Some l"
      by blast
    have pf: "pairedFrom leftReadLength rightReadLength leftHits rightHits a l r"
      using l0 r0 by (auto simp: pairedFrom_def)
    have sc: "score a = dbl_avg (bestHitScore l) (bestHitScore r)"
      by (subst eq) (simp add: pairedAlignment_def Let_def)
    have fl: "fragLength a = word_of_int \<bar>sint (bestHitPos l) - sint (bestHitPos r)\<bar> + rightReadLength"
      by (subst eq) (simp add: pairedAlignment_def Let_def)
    have fin: "\<forall>x y. bestHitScore l = Fin x \<and> bestHitScore r = Fin y \<longrightarrow> score a = Fin ((x + y) / 2)"
      using sc by auto
    have un: "nat \<bar>sint (bestHitPos l) - sint (bestHitPos r)\<bar> + unat rightReadLength < 2 ^ 32 \<longrightarrow>
            unat (fragLength a) =
              nat \<bar>sint (bestHitPos l) - sint (bestHitPos r)\<bar> + unat rightReadLength"
      using unat_fragLength [of "sint (bestHitPos l) - sint (bestHitPos r)" rightReadLength] fl
      by simp
    from pf ge sc fin fl un show ?thesis by blast
  qed
  then show ?thesis using res by blast
qed

theorem paired_alignment_both_ends_witness:
  "getHitsForFragment exHitType (3 / 4) 30 30 exLeftHits exRightHits = Some [exPairAln] \<and>
   (\<exists>(l :: TranscriptHitList) (r :: TranscriptHitList).
      dbl_ge (bestHitScore l) (3 / 4) \<and> dbl_ge (bestHitScore r) (3 / 4) \<and>
      score exPairAln = dbl_avg (bestHitScore l) (bestHitScore r) \<and>
      fragLength exPairAln = word_of_int \<bar>sint (bestHitPos l) - sint (bestHitPos r)\<bar> + 30)"
proof -
  have ev: "getHitsForFragment exHitType (3 / 4) 30 30 exLeftHits exRightHits = Some [exPairAln]"
    by (simp add: getHitsForFragment_def exLeftHits_def exRightHits_def exPairAln_def
        pairedAlignment_def exHitType_def computeBestChain_def emptyHitList_def mkVote_def
        sortVotes_def voteKey_def computeBestLoc_def zeroCluster_def emptyHitMap_def fdiv_def
        Let_def)
  from paired_alignment_both_ends [of exHitType "3 / 4" 30 30 exLeftHits exRightHits] ev
  have "\<exists>l r. pairedFrom 30 30 exLeftHits exRightHits exPairAln l r \<and>
         dbl_ge (bestHitScore l) (3 / 4) \<and> dbl_ge (bestHitScore r) (3 / 4) \<and>
         score exPairAln = dbl_avg (bestHitScore l) (bestHitScore r) \<and>
         (\<forall>x y. bestHitScore l = Fin x \<and> bestHitScore r = Fin y \<longrightarrow> score exPairAln = Fin ((x + y) / 2)) \<and>
         fragLength exPairAln = word_of_int \<bar>sint (bestHitPos l) - sint (bestHitPos r)\<bar> + 30 \<and>
         (nat \<bar>sint (bestHitPos l) - sint (bestHitPos r)\<bar> + unat (30 :: u32) < 2 ^ 32 \<longrightarrow>
            unat (fragLength exPairAln) =
              nat \<bar>sint (bestHitPos l) - sint (bestHitPos r)\<bar> + unat (30 :: u32))"
    by auto
  then obtain l r :: TranscriptHitList where
    "dbl_ge (bestHitScore l) (3 / 4)" "dbl_ge (bestHitScore r) (3 / 4)"
    "score exPairAln = dbl_avg (bestHitScore l) (bestHitScore r)"
    "fragLength exPairAln = word_of_int \<bar>sint (bestHitPos l) - sint (bestHitPos r)\<bar> + 30"
    by (elim exE conjE)
  then show ?thesis using ev by (intro conjI exI [of _ l] exI [of _ r])
qed

end
